theory Spec2Isabelle
  imports Main
begin

section \<open>JavaScript values\<close>

text \<open>
  The two source files are \<^verbatim>\<open>myStringify\<close> (value to JSON text) and \<^verbatim>\<open>myParse\<close>
  (JSON text to value). Strings are lists of code units; a code unit is modelled by an
  8-bit character of HOL, so the model holds the strings and texts whose code units are
  all below 256, and every statement below is about those.
\<close>

abbreviation DQUOTE :: char where "DQUOTE \<equiv> CHR 0x22"
abbreviation BSLASH :: char where "BSLASH \<equiv> CHR 0x5C"
abbreviation BSPACE :: char where "BSPACE \<equiv> CHR 0x08"
abbreviation FFEED :: char where "FFEED \<equiv> CHR 0x0C"
abbreviation NEWLINE :: char where "NEWLINE \<equiv> CHR 0x0A"
abbreviation CRETURN :: char where "CRETURN \<equiv> CHR 0x0D"
abbreviation TABCHAR :: char where "TABCHAR \<equiv> CHR 0x09"
abbreviation VTAB :: char where "VTAB \<equiv> CHR 0x0B"
abbreviation NBSP :: char where "NBSP \<equiv> CHR 0xA0"

subsection \<open>Numbers\<close>

text \<open>
  A finite Number is named by a decimal \<open>Fin m e\<close> with value \<open>m * 10 ^ e\<close>, the decimal
  that \<^verbatim>\<open>String(value)\<close> prints; the other three values are the non-finite ones.
  Negative zero is not told from zero.
\<close>

datatype jsnum = Fin int int | NaN | PosInf | NegInf

fun isFinite :: "jsnum \<Rightarrow> bool" where
  "isFinite (Fin m e) = True"
| "isFinite NaN = False"
| "isFinite PosInf = False"
| "isFinite NegInf = False"

definition digit_char :: "nat \<Rightarrow> char" where
  "digit_char d = ''0123456789'' ! d"

function nat_digits :: "nat \<Rightarrow> string" where
  "nat_digits n = (if n < 10 then [digit_char n] else nat_digits (n div 10) @ [digit_char (n mod 10)])"
  by pat_completeness auto
termination
  by (relation "measure id") auto

declare nat_digits.simps [simp del]

text \<open>The canonical form of a decimal: no factor 10 left in the mantissa, and zero as \<open>(0, 0)\<close>.\<close>

function normalise :: "int \<Rightarrow> int \<Rightarrow> int \<times> int" where
  "normalise m e =
     (if m = 0 then (0, 0)
      else if m mod 10 = 0 then normalise (m div 10) (e + 1)
      else (m, e))"
  by pat_completeness auto
termination
  by (relation "measure (\<lambda>(m, e). nat \<bar>m\<bar>)") auto

declare normalise.simps [simp del]

text \<open>
  \<^verbatim>\<open>String(value)\<close> of a finite Number, after ECMAScript's Number::toString: with \<open>k\<close>
  digits \<open>s\<close> and the decimal point after \<open>n\<close> digits, plain digits for an integer up to
  \<open>10^21\<close>, a decimal fraction down to \<open>10^-6\<close>, and the exponent form otherwise.
\<close>

definition String_digits :: "string \<Rightarrow> int \<Rightarrow> string" where
  "String_digits s n =
     (let k = int (length s) in
      if k \<le> n \<and> n \<le> 21 then s @ replicate (nat (n - k)) CHR ''0''
      else if 0 < n \<and> n \<le> 21 then take (nat n) s @ ''.'' @ drop (nat n) s
      else if - 6 < n \<and> n \<le> 0 then ''0.'' @ replicate (nat (- n)) CHR ''0'' @ s
      else
        (let ex = (if n - 1 < 0 then ''-'' else ''+'') @ nat_digits (nat \<bar>n - 1\<bar>) in
         if k = 1 then s @ ''e'' @ ex
         else take 1 s @ ''.'' @ drop 1 s @ ''e'' @ ex))"

definition String_number :: "jsnum \<Rightarrow> string" where
  "String_number x =
     (case x of
        NaN \<Rightarrow> ''NaN''
      | PosInf \<Rightarrow> ''Infinity''
      | NegInf \<Rightarrow> ''-Infinity''
      | Fin m0 e0 \<Rightarrow>
          (case normalise m0 e0 of (m, e) \<Rightarrow>
             if m = 0 then ''0''
             else
               (let s = nat_digits (nat \<bar>m\<bar>) in
                (if m < 0 then ''-'' else '''') @ String_digits s (int (length s) + e))))"

definition String_bool :: "bool \<Rightarrow> string" where
  "String_bool b = (if b then ''true'' else ''false'')"

subsection \<open>Values and the store\<close>

text \<open>
  A JavaScript value is a primitive or a reference to an object. Arrays and plain objects
  live in a store and are named by their address, which is their identity: two references
  are the same object exactly when the addresses are equal, and a store can hold shared
  and cyclic structures. An array is the list of its slots, one for every index below
  its length: \<open>Some\<close> an element, or \<open>None\<close> for a hole, an index with no element as
  the second one of \<^verbatim>\<open>[1,,3]\<close>. An object is the list of its own enumerable entries in
  enumeration order. \<open>VUndefined\<close> and \<open>VFunction\<close> stand for the kinds of value with no
  JSON representation.
\<close>

type_synonym addr = nat

datatype jsval =
    VNull
  | VBool bool
  | VNumber jsnum
  | VString string
  | VUndefined
  | VFunction
  | VRef addr

datatype container =
    CArr "jsval option list"
  | CObj "(string \<times> jsval) list"

type_synonym store = "container list"

definition lookup :: "store \<Rightarrow> addr \<Rightarrow> container option" where
  "lookup h a = (if a < length h then Some (h ! a) else None)"

text \<open>The one error of the serializer: \<^verbatim>\<open>throw new TypeError("cyclic object value")\<close>.\<close>

datatype error = CyclicError

text \<open>
  The replacer is a function of key and value; it returns a primitive or an object of the
  store. \<open>None\<close> is a call with no replacer (anything that is not a function).
\<close>

type_synonym replacer = "string \<Rightarrow> jsval \<Rightarrow> jsval"

text \<open>
  The argument \<^verbatim>\<open>space\<close>: a number, here a non-negative integer, or a string. A value
  that is neither and is falsy, as \<^verbatim>\<open>null\<close> or \<^verbatim>\<open>undefined\<close>, gives the indent of the
  empty string; the default is the number 0.
\<close>

datatype space = SpaceNumber nat | SpaceString string

section \<open>The serializer\<close>

text \<open>\<^verbatim>\<open>Array.prototype.join\<close> on an array of strings, and \<^verbatim>\<open>String.prototype.repeat\<close>.\<close>

fun join :: "string \<Rightarrow> string list \<Rightarrow> string" where
  "join sep [] = []"
| "join sep [x] = x"
| "join sep (x # y # ys) = x @ sep @ join sep (y # ys)"

definition repeat :: "string \<Rightarrow> nat \<Rightarrow> string" where
  "repeat s n = concat (replicate n s)"

text \<open>
  \<^verbatim>\<open>map\<close> and \<^verbatim>\<open>filter\<close> with a callback that may throw: the callback runs on the
  elements in order, and the first exception ends the whole call.
\<close>

fun mapE :: "('a \<Rightarrow> 'e + 'b) \<Rightarrow> 'a list \<Rightarrow> 'e + 'b list" where
  "mapE f [] = Inr []"
| "mapE f (x # xs) =
     (case f x of
        Inl e \<Rightarrow> Inl e
      | Inr y \<Rightarrow> (case mapE f xs of Inl e \<Rightarrow> Inl e | Inr ys \<Rightarrow> Inr (y # ys)))"

fun filterE :: "('a \<Rightarrow> 'e + bool) \<Rightarrow> 'a list \<Rightarrow> 'e + 'a list" where
  "filterE f [] = Inr []"
| "filterE f (x # xs) =
     (case f x of
        Inl e \<Rightarrow> Inl e
      | Inr b \<Rightarrow> (case filterE f xs of Inl e \<Rightarrow> Inl e | Inr ys \<Rightarrow> Inr (if b then x # ys else ys)))"

lemma mapE_cong [fundef_cong]:
  "xs = ys \<Longrightarrow> (\<And>x. x \<in> set ys \<Longrightarrow> f x = g x) \<Longrightarrow> mapE f xs = mapE g ys"
  by (induction ys arbitrary: xs) (auto split: sum.splits)

lemma filterE_cong [fundef_cong]:
  "xs = ys \<Longrightarrow> (\<And>x. x \<in> set ys \<Longrightarrow> f x = g x) \<Longrightarrow> filterE f xs = filterE g ys"
  by (induction ys arbitrary: xs) (auto split: sum.splits)

text \<open>
  \<^verbatim>\<open>escapeString\<close>: every character of the class \<^verbatim>\<open>["\\\b\f\n\r\t]\<close> is replaced by
  its entry in the table \<^verbatim>\<open>escapes\<close> of that function.
\<close>

definition escapeString_escapes :: "char \<Rightarrow> string option" where
  "escapeString_escapes c =
     (if c = DQUOTE then Some [BSLASH, DQUOTE]
      else if c = BSLASH then Some [BSLASH, BSLASH]
      else if c = BSPACE then Some [BSLASH, CHR ''b'']
      else if c = FFEED then Some [BSLASH, CHR ''f'']
      else if c = NEWLINE then Some [BSLASH, CHR ''n'']
      else if c = CRETURN then Some [BSLASH, CHR ''r'']
      else if c = TABCHAR then Some [BSLASH, CHR ''t'']
      else None)"

definition escape_class :: "char \<Rightarrow> bool" where
  "escape_class c = (c \<in> {DQUOTE, BSLASH, BSPACE, FFEED, NEWLINE, CRETURN, TABCHAR})"

definition escapeString :: "string \<Rightarrow> string" where
  "escapeString str =
     concat (map (\<lambda>c. if escape_class c then (case escapeString_escapes c of Some e \<Rightarrow> e | None \<Rightarrow> [c]) else [c]) str)"

definition applyReplacer :: "replacer option \<Rightarrow> string \<Rightarrow> jsval \<Rightarrow> jsval" where
  "applyReplacer replacerFn key v = (case replacerFn of Some f \<Rightarrow> f key v | None \<Rightarrow> v)"

text \<open>
  The three mutually recursive functions of the source. \<open>h\<close> is the store, \<open>indent\<close> the
  indent unit (the empty string is falsy: no indentation), \<open>stack\<close> the objects being
  visited. An array or object argument is its address together with its content. The
  result is \<open>Inl\<close> for a thrown error and \<open>Inr None\<close> for \<^verbatim>\<open>undefined\<close>.
  \<^verbatim>\<open>Array.prototype.map\<close> does not call its function at a hole and leaves the hole in its
  result, and \<^verbatim>\<open>join\<close> writes a hole as the empty text. The stack
  is passed down with the object pushed, so that \<^verbatim>\<open>stack.pop()\<close> is the return to the
  caller's stack; \<^verbatim>\<open>stack.includes(value)\<close> compares identities, here addresses. A
  reference to no object of the store is no value of the program; it is given the result
  of an unsupported value.
\<close>

function stringifyValue ::
    "store \<Rightarrow> replacer option \<Rightarrow> string \<Rightarrow> addr list \<Rightarrow> string \<Rightarrow> jsval \<Rightarrow> nat \<Rightarrow> error + string option"
  and stringifyArray ::
    "store \<Rightarrow> replacer option \<Rightarrow> string \<Rightarrow> addr list \<Rightarrow> addr \<Rightarrow> jsval option list \<Rightarrow> nat \<Rightarrow> error + string option"
  and stringifyObject ::
    "store \<Rightarrow> replacer option \<Rightarrow> string \<Rightarrow> addr list \<Rightarrow> addr \<Rightarrow> (string \<times> jsval) list \<Rightarrow> nat \<Rightarrow> error + string option"
where
  "stringifyValue h r indent stack key v0 depth =
     (case applyReplacer r key v0 of
        VNull \<Rightarrow> Inr (Some ''null'')
      | VString s \<Rightarrow> Inr (Some ([DQUOTE] @ escapeString s @ [DQUOTE]))
      | VNumber n \<Rightarrow> Inr (Some (if isFinite n then String_number n else ''null''))
      | VBool b \<Rightarrow> Inr (Some (String_bool b))
      | VRef a \<Rightarrow>
          (case lookup h a of
             None \<Rightarrow> Inr None
           | Some c \<Rightarrow>
               if a \<in> set stack then Inl CyclicError
               else (case c of
                       CArr array \<Rightarrow> stringifyArray h r indent stack a array depth
                     | CObj obj \<Rightarrow> stringifyObject h r indent stack a obj depth))
      | VUndefined \<Rightarrow> Inr None
      | VFunction \<Rightarrow> Inr None)"
| "stringifyArray h r indent stack a array depth =
     (case mapE (\<lambda>slot.
                  case slot of
                    None \<Rightarrow> Inr ''''
                  | Some item \<Rightarrow>
                      (case stringifyValue h r indent (stack @ [a]) '''' item (depth + 1) of
                         Inl e \<Rightarrow> Inl e
                       | Inr t \<Rightarrow> Inr (case t of None \<Rightarrow> ''null'' | Some s \<Rightarrow> s)))
             array of
        Inl e \<Rightarrow> Inl e
      | Inr items \<Rightarrow>
          (let result =
                 join (if indent \<noteq> [] then '','' @ [NEWLINE] @ repeat indent (depth + 1) else '','') items
           in Inr (Some (''['' @
                (if indent \<noteq> []
                 then [NEWLINE] @ repeat indent (depth + 1) @ result @ [NEWLINE] @ repeat indent depth
                 else result) @ '']''))))"
| "stringifyObject h r indent stack a obj depth =
     (case filterE (\<lambda>(key, v).
                     case stringifyValue h r indent (stack @ [a]) key v depth of
                       Inl e \<Rightarrow> Inl e
                     | Inr t \<Rightarrow> Inr (t \<noteq> None))
             obj of
        Inl e \<Rightarrow> Inl e
      | Inr kept \<Rightarrow>
          (case mapE (\<lambda>(key, v).
                       case stringifyValue h r indent (stack @ [a]) key v (depth + 1) of
                         Inl e \<Rightarrow> Inl e
                       | Inr t \<Rightarrow>
                           Inr ((if indent \<noteq> [] then repeat indent (depth + 1) else '''') @
                                [DQUOTE] @ key @ [DQUOTE] @ '':'' @
                                (if indent \<noteq> [] then '' '' else '''') @
                                (case t of None \<Rightarrow> ''undefined'' | Some s \<Rightarrow> s)))
                  kept of
             Inl e \<Rightarrow> Inl e
           | Inr entries \<Rightarrow>
               (let result = join (if indent \<noteq> [] then '','' @ [NEWLINE] else '','') entries
                in Inr (Some (''{'' @
                     (if indent \<noteq> []
                      then [NEWLINE] @ result @ [NEWLINE] @ repeat indent depth
                      else result) @ ''}'')))))"
  by pat_completeness auto
termination
proof (relation "measure (\<lambda>x. case x of
          Inl (h, r, indent, stack, key, v, depth) \<Rightarrow> 2 * card ({..<length h} - set stack)
        | Inr (Inl (h, r, indent, stack, a, array, depth)) \<Rightarrow>
            2 * card ({..<length h} - set stack - {a}) + 1
        | Inr (Inr (h, r, indent, stack, a, obj, depth)) \<Rightarrow>
            2 * card ({..<length h} - set stack - {a}) + 1)", goal_cases)
  case 1
  show ?case by simp
next
  case (2 h r indent stack key v0 depth a c array)
  then have "a \<in> {..<length h} - set stack"
    by (auto simp: lookup_def split: if_splits)
  then have "card ({..<length h} - set stack - {a}) < card ({..<length h} - set stack)"
    by (intro card_Diff1_less) auto
  then show ?case by simp
next
  case (3 h r indent stack key v0 depth a c obj)
  then have "a \<in> {..<length h} - set stack"
    by (auto simp: lookup_def split: if_splits)
  then have "card ({..<length h} - set stack - {a}) < card ({..<length h} - set stack)"
    by (intro card_Diff1_less) auto
  then show ?case by simp
next
  case (4 h r indent stack a array depth slot item)
  have "{..<length h} - set (stack @ [a]) = {..<length h} - set stack - {a}" by auto
  then show ?case by simp
next
  case (5 h r indent stack a obj depth x key v)
  have "{..<length h} - set (stack @ [a]) = {..<length h} - set stack - {a}" by auto
  then show ?case by simp
next
  case (6 h r indent stack a obj depth kept x key v)
  have "{..<length h} - set (stack @ [a]) = {..<length h} - set stack - {a}" by auto
  then show ?case by simp
qed

declare stringifyValue.simps [simp del] stringifyArray.simps [simp del] stringifyObject.simps [simp del]

text \<open>
  The entry point. \<^verbatim>\<open>typeof space === "number" ? " ".repeat(space) : space || ""\<close>;
  the stack starts empty and the root is visited with the empty key at depth 0.
\<close>

definition indent_of :: "space \<Rightarrow> string" where
  "indent_of sp = (case sp of SpaceNumber n \<Rightarrow> repeat '' '' n | SpaceString s \<Rightarrow> s)"

definition myStringify :: "store \<Rightarrow> jsval \<Rightarrow> replacer option \<Rightarrow> space \<Rightarrow> error + string option" where
  "myStringify h v replacerFn sp = stringifyValue h replacerFn (indent_of sp) [] '''' v 0"

section \<open>The parser\<close>

subsection \<open>Parsed values\<close>

text \<open>
  The parser builds fresh arrays and objects that nothing else refers to, so its values
  are trees. \<open>JUndefined\<close> is \<^verbatim>\<open>undefined\<close>, which only a reviver can bring in, and
  \<open>JEmpty\<close> is the hole that \<^verbatim>\<open>delete\<close> leaves at an index of an array. The one error is
  \<^verbatim>\<open>SyntaxError\<close>.
\<close>

datatype json =
    JNull
  | JBool bool
  | JNumber jsnum
  | JString string
  | JArray "json list"
  | JObject "(string \<times> json) list"
  | JUndefined
  | JEmpty

datatype parse_error = SyntaxError

text \<open>
  The reviver is a function of key and value. It returns the very value it was given
  (\<open>Same\<close>: for an array or object, the same object), or another value (\<open>Fresh\<close>): a
  primitive, \<^verbatim>\<open>undefined\<close>, or a newly built array or object that shares no part with
  the parsed tree.
\<close>

datatype revived = Same | Fresh json

type_synonym reviver = "string \<Rightarrow> json \<Rightarrow> revived"

subsection \<open>Characters and the cursor\<close>

text \<open>\<^verbatim>\<open>json[index]\<close>: \<open>None\<close> is \<^verbatim>\<open>undefined\<close>, the value read at or after the end.\<close>

definition json_at :: "string \<Rightarrow> nat \<Rightarrow> char option" where
  "json_at json index = (if index < length json then Some (json ! index) else None)"

text \<open>
  The class \<^verbatim>\<open>\s\<close> of a regular expression, among the code units up to 255; the test of
  \<^verbatim>\<open>undefined\<close> is the test of the string \<^verbatim>\<open>"undefined"\<close>, which has no such character.
\<close>

definition is_space :: "char \<Rightarrow> bool" where
  "is_space c = (c \<in> {TABCHAR, NEWLINE, VTAB, FFEED, CRETURN, CHR '' '', NBSP})"

definition test_s :: "char option \<Rightarrow> bool" where
  "test_s ch = (case ch of None \<Rightarrow> False | Some c \<Rightarrow> is_space c)"

function skipWhitespace :: "string \<Rightarrow> nat \<Rightarrow> nat" where
  "skipWhitespace json index =
     (if test_s (json_at json index) then skipWhitespace json (index + 1) else index)"
  by pat_completeness auto
termination
  by (relation "measure (\<lambda>(json, index). length json - index)")
     (auto simp: test_s_def json_at_def split: if_splits)

declare skipWhitespace.simps [simp del]

text \<open>\<^verbatim>\<open>char >= "0" && char <= "9"\<close>, false for \<^verbatim>\<open>undefined\<close>.\<close>

definition isDigit :: "char option \<Rightarrow> bool" where
  "isDigit ch = (case ch of None \<Rightarrow> False | Some c \<Rightarrow> (48::nat) \<le> of_char c \<and> of_char c \<le> (57::nat))"

subsection \<open>Numbers\<close>

text \<open>
  The sticky regular expression \<^verbatim>\<open>/-?\d+(\.\d+)?([eE][+-]?\d+)?/y\<close> at \<open>index\<close>: the end
  of the match, if there is one. Every part is greedy, and a group that cannot be
  completed is left out.
\<close>

function digits_end :: "string \<Rightarrow> nat \<Rightarrow> nat" where
  "digits_end json i = (if isDigit (json_at json i) then digits_end json (i + 1) else i)"
  by pat_completeness auto
termination
  by (relation "measure (\<lambda>(json, i). length json - i)")
     (auto simp: isDigit_def json_at_def split: if_splits)

declare digits_end.simps [simp del]

text \<open>The three optional parts: \<^verbatim>\<open>-?\<close>, \<^verbatim>\<open>(\.\d+)?\<close> and \<^verbatim>\<open>([eE][+-]?\d+)?\<close>.\<close>

definition sign_end :: "string \<Rightarrow> nat \<Rightarrow> nat" where
  "sign_end json i = (if json_at json i = Some CHR ''-'' then i + 1 else i)"

definition fraction_end :: "string \<Rightarrow> nat \<Rightarrow> nat" where
  "fraction_end json i =
     (if json_at json i = Some CHR ''.'' \<and> isDigit (json_at json (i + 1))
      then digits_end json (i + 1) else i)"

definition exponent_sign_end :: "string \<Rightarrow> nat \<Rightarrow> nat" where
  "exponent_sign_end json i =
     (if json_at json i = Some CHR ''+'' \<or> json_at json i = Some CHR ''-'' then i + 1 else i)"

definition exponent_end :: "string \<Rightarrow> nat \<Rightarrow> nat" where
  "exponent_end json i =
     (if json_at json i = Some CHR ''e'' \<or> json_at json i = Some CHR ''E''
      then
        (if isDigit (json_at json (exponent_sign_end json (i + 1)))
         then digits_end json (exponent_sign_end json (i + 1)) else i)
      else i)"

definition numberRegex_exec :: "string \<Rightarrow> nat \<Rightarrow> nat option" where
  "numberRegex_exec json index =
     (if \<not> isDigit (json_at json (sign_end json index)) then None
      else Some (exponent_end json (fraction_end json (digits_end json (sign_end json index)))))"

text \<open>
  \<^verbatim>\<open>Number(text)\<close> for a text the regular expression matched: the decimal the text
  denotes, in canonical form. This is the Number of JavaScript for a text of at most
  15 significant digits whose value is zero or lies in the range of the normal doubles:
  such a decimal names one double and is printed back as it is. For a longer or larger
  or smaller text JavaScript rounds, to the nearest double, to an infinity or to zero;
  the model keeps the decimal of the text there. The properties below evaluate this
  conversion on short texts only; where they range over all texts they compare two
  results of the same conversion.
\<close>

definition digit_class :: "char \<Rightarrow> bool" where
  "digit_class c = isDigit (Some c)"

definition digits_value :: "string \<Rightarrow> nat" where
  "digits_value s = foldl (\<lambda>n c. 10 * n + (of_char c - 48)) 0 s"

definition Number_text :: "string \<Rightarrow> jsnum" where
  "Number_text s =
     (let neg = (take 1 s = ''-'');
          s1 = (if neg then drop 1 s else s);
          ip = takeWhile digit_class s1;
          r1 = dropWhile digit_class s1;
          fp = (if take 1 r1 = ''.'' then takeWhile digit_class (drop 1 r1) else []);
          r2 = (if take 1 r1 = ''.'' then dropWhile digit_class (drop 1 r1) else r1);
          r3 = drop 1 r2;
          ex = (if take 1 r3 = ''-'' then - int (digits_value (drop 1 r3))
                else if take 1 r3 = ''+'' then int (digits_value (drop 1 r3))
                else int (digits_value r3));
          m = int (digits_value (ip @ fp))
      in case normalise (if neg then - m else m) (ex - int (length fp)) of (m', e') \<Rightarrow> Fin m' e')"

definition parseNumber :: "string \<Rightarrow> nat \<Rightarrow> parse_error + json \<times> nat" where
  "parseNumber json index =
     (case numberRegex_exec json index of
        None \<Rightarrow> Inl SyntaxError
      | Some j \<Rightarrow> Inr (JNumber (Number_text (take (j - index) (drop index json))), j))"

subsection \<open>Literals and strings\<close>

text \<open>\<^verbatim>\<open>json.slice(index, index + literal.length) === literal\<close>.\<close>

definition parseLiteral :: "string \<Rightarrow> nat \<Rightarrow> string \<Rightarrow> json \<Rightarrow> parse_error + json \<times> nat" where
  "parseLiteral json index literal v =
     (if take (length literal) (drop index json) = literal
      then Inr (v, index + length literal)
      else Inl SyntaxError)"

definition parseString_escapes :: "char \<Rightarrow> string option" where
  "parseString_escapes c =
     (if c = DQUOTE then Some [DQUOTE]
      else if c = BSLASH then Some [BSLASH]
      else if c = CHR ''/'' then Some ''/''
      else if c = CHR ''b'' then Some [BSPACE]
      else if c = CHR ''f'' then Some [FFEED]
      else if c = CHR ''n'' then Some [NEWLINE]
      else if c = CHR ''r'' then Some [CRETURN]
      else if c = CHR ''t'' then Some [TABCHAR]
      else None)"

text \<open>
  The loop of \<^verbatim>\<open>parseString\<close>. It has no test for the end of the text: there
  \<^verbatim>\<open>json[index]\<close> is \<^verbatim>\<open>undefined\<close>, which is not the quote, and \<^verbatim>\<open>result += undefined\<close>
  appends the nine characters \<^verbatim>\<open>undefined\<close>. The first argument bounds the number of
  iterations; \<open>None\<close> is a loop that has not ended within the bound. Strings have no
  maximal length in the model. An engine has one, so that there a loop that runs past
  the end of the text is ended by a \<^verbatim>\<open>RangeError\<close> for the length of the string, which
  is neither a result nor the \<^verbatim>\<open>SyntaxError\<close> of the parser; in the model such a call
  has no answer within any bound.
\<close>

definition append_char :: "char option \<Rightarrow> string" where
  "append_char ch = (case ch of None \<Rightarrow> ''undefined'' | Some c \<Rightarrow> [c])"

text \<open>\<^verbatim>\<open>escapes[escapeChar] || escapeChar\<close>, as the text that \<^verbatim>\<open>+=\<close> appends.\<close>

definition escape_text :: "char option \<Rightarrow> string" where
  "escape_text escapeChar =
     (case escapeChar of
        None \<Rightarrow> append_char escapeChar
      | Some c \<Rightarrow> (case parseString_escapes c of Some s \<Rightarrow> s | None \<Rightarrow> append_char escapeChar))"

fun parseStringLoop :: "nat \<Rightarrow> string \<Rightarrow> nat \<Rightarrow> string \<Rightarrow> (string \<times> nat) option" where
  "parseStringLoop 0 json index result = None"
| "parseStringLoop (Suc n) json index result =
     (if json_at json index \<noteq> Some DQUOTE then
        (if json_at json index = Some BSLASH then
           parseStringLoop n json (index + 1 + 1) (result @ escape_text (json_at json (index + 1)))
         else parseStringLoop n json (index + 1) (result @ append_char (json_at json index)))
      else Some (result, index + 1))"

definition parseString :: "nat \<Rightarrow> string \<Rightarrow> nat \<Rightarrow> (string \<times> nat) option" where
  "parseString n json index = parseStringLoop n json (index + 1) []"

subsection \<open>Objects\<close>

text \<open>
  \<^verbatim>\<open>result[key] = value\<close> on an object built from \<^verbatim>\<open>{}\<close>. An existing key keeps its
  place. A new key that is an array index (the canonical decimal of a number below
  \<open>2^32 - 1\<close>) goes among the index keys in ascending order, which come first in the
  enumeration order; any other new key goes last. The key \<^verbatim>\<open>__proto__\<close> reaches the
  setter of \<^verbatim>\<open>Object.prototype\<close> and creates no property.
\<close>

definition array_index :: "string \<Rightarrow> nat option" where
  "array_index key =
     (if key \<noteq> [] \<and> list_all digit_class key \<and> (key = ''0'' \<or> take 1 key \<noteq> ''0'') \<and>
         int (digits_value key) < 4294967295
      then Some (digits_value key) else None)"

fun insert_index :: "nat \<Rightarrow> string \<Rightarrow> json \<Rightarrow> (string \<times> json) list \<Rightarrow> (string \<times> json) list" where
  "insert_index i key v [] = [(key, v)]"
| "insert_index i key v ((k, x) # es) =
     (case array_index k of
        None \<Rightarrow> (key, v) # (k, x) # es
      | Some j \<Rightarrow> if i < j then (key, v) # (k, x) # es else (k, x) # insert_index i key v es)"

definition obj_set :: "(string \<times> json) list \<Rightarrow> string \<Rightarrow> json \<Rightarrow> (string \<times> json) list" where
  "obj_set result key v =
     (if key = ''__proto__'' then result
      else if key \<in> fst ` set result then map (\<lambda>(k, x). if k = key then (k, v) else (k, x)) result
      else (case array_index key of
              None \<Rightarrow> result @ [(key, v)]
            | Some i \<Rightarrow> insert_index i key v result))"

subsection \<open>The reviver\<close>

text \<open>\<^verbatim>\<open>typeof v === "object" && v !== null\<close>.\<close>

definition isObject :: "json \<Rightarrow> bool" where
  "isObject v = (case v of JArray xs \<Rightarrow> True | JObject es \<Rightarrow> True | _ \<Rightarrow> False)"

definition newValue_of :: "reviver \<Rightarrow> string \<Rightarrow> json \<Rightarrow> json" where
  "newValue_of rv key v = (case rv key v of Same \<Rightarrow> v | Fresh w \<Rightarrow> w)"

text \<open>
  The loop \<^verbatim>\<open>for (const key in holder)\<close> of \<^verbatim>\<open>recursiveRevive\<close>, which changes the
  holder in place: over the entries of an object, and over the indices of an array,
  whose keys are the decimals of the indices and whose holes are not enumerated.
  \<open>rec\<close> is the recursive call on the new value.
\<close>

fun reviveEntries ::
    "(json \<Rightarrow> json option) \<Rightarrow> reviver \<Rightarrow> (string \<times> json) list \<Rightarrow> (string \<times> json) list option" where
  "reviveEntries rec rv [] = Some []"
| "reviveEntries rec rv ((key, v) # es) =
     (let newValue = newValue_of rv key v in
      if newValue = JUndefined then reviveEntries rec rv es
      else
        (case (if isObject newValue then rec newValue else Some newValue) of
           None \<Rightarrow> None
         | Some x \<Rightarrow>
             (case reviveEntries rec rv es of None \<Rightarrow> None | Some es' \<Rightarrow> Some ((key, x) # es'))))"

fun reviveElements ::
    "(json \<Rightarrow> json option) \<Rightarrow> reviver \<Rightarrow> nat \<Rightarrow> json list \<Rightarrow> json list option" where
  "reviveElements rec rv i [] = Some []"
| "reviveElements rec rv i (v # xs) =
     (if v = JEmpty
      then (case reviveElements rec rv (i + 1) xs of None \<Rightarrow> None | Some xs' \<Rightarrow> Some (JEmpty # xs'))
      else
        (let newValue = newValue_of rv (nat_digits i) v in
         case (if newValue = JUndefined then Some JEmpty
               else if isObject newValue then rec newValue else Some newValue) of
           None \<Rightarrow> None
         | Some x \<Rightarrow>
             (case reviveElements rec rv (i + 1) xs of None \<Rightarrow> None | Some xs' \<Rightarrow> Some (x # xs'))))"

text \<open>
  \<^verbatim>\<open>recursiveRevive\<close>; the result is the holder after the call. The first argument bounds
  the depth of the recursion, which has no bound of its own when the reviver builds new
  objects.
\<close>

primrec recursiveRevive :: "nat \<Rightarrow> reviver \<Rightarrow> json \<Rightarrow> json option" where
  "recursiveRevive 0 rv holder = None"
| "recursiveRevive (Suc n) rv holder =
     (case holder of
        JObject es \<Rightarrow> map_option JObject (reviveEntries (recursiveRevive n rv) rv es)
      | JArray xs \<Rightarrow> map_option JArray (reviveElements (recursiveRevive n rv) rv 0 xs)
      | _ \<Rightarrow> Some holder)"

text \<open>
  \<^verbatim>\<open>applyReviver\<close> walks the synthetic holder \<^verbatim>\<open>{"": obj}\<close> and returns \<^verbatim>\<open>obj\<close>, not the
  entry of the holder: what the walk did to the entry shows in the result exactly when
  the reviver returned \<^verbatim>\<open>obj\<close> itself at the empty key.
\<close>

definition applyReviver :: "nat \<Rightarrow> reviver option \<Rightarrow> json \<Rightarrow> json option" where
  "applyReviver n reviver obj =
     (case reviver of
        None \<Rightarrow> Some obj
      | Some rv \<Rightarrow>
          if isObject obj then
            (case recursiveRevive n rv (JObject [('''', obj)]) of
               None \<Rightarrow> None
             | Some holder \<Rightarrow>
                 Some (case rv '''' obj of
                         Same \<Rightarrow> (case holder of JObject [(k, x)] \<Rightarrow> x | _ \<Rightarrow> obj)
                       | Fresh w \<Rightarrow> obj))
          else Some obj)"

subsection \<open>Values\<close>

text \<open>
  The mutually recursive functions of the parser, the cursor passed in and returned.
  The first argument bounds the nesting of the calls and the iterations of the loops
  (\<open>None\<close>: not ended within the bound); the result is \<open>Inl\<close> for a thrown error.
\<close>

function (sequential) parseValue :: "nat \<Rightarrow> string \<Rightarrow> reviver option \<Rightarrow> nat \<Rightarrow> (parse_error + json \<times> nat) option"
  and parseObject :: "nat \<Rightarrow> string \<Rightarrow> reviver option \<Rightarrow> nat \<Rightarrow> (parse_error + json \<times> nat) option"
  and parseObjectLoop ::
    "nat \<Rightarrow> string \<Rightarrow> reviver option \<Rightarrow> nat \<Rightarrow> (string \<times> json) list \<Rightarrow> (parse_error + json \<times> nat) option"
  and parseArray :: "nat \<Rightarrow> string \<Rightarrow> reviver option \<Rightarrow> nat \<Rightarrow> (parse_error + json \<times> nat) option"
  and parseArrayLoop ::
    "nat \<Rightarrow> string \<Rightarrow> reviver option \<Rightarrow> nat \<Rightarrow> json list \<Rightarrow> (parse_error + json \<times> nat) option"
where
  "parseValue 0 json reviver index0 = None"
| "parseValue (Suc n) json reviver index0 =
     (let index = skipWhitespace json index0;
          char = json_at json index
      in if char = Some DQUOTE then
           (case parseString n json index of
              None \<Rightarrow> None
            | Some (s, i) \<Rightarrow> Some (Inr (JString s, i)))
         else if char = Some CHR ''{'' then parseObject n json reviver index
         else if char = Some CHR ''['' then parseArray n json reviver index
         else if char = Some CHR ''t'' then Some (parseLiteral json index ''true'' (JBool True))
         else if char = Some CHR ''f'' then Some (parseLiteral json index ''false'' (JBool False))
         else if char = Some CHR ''n'' then Some (parseLiteral json index ''null'' JNull)
         else if char = Some CHR ''-'' \<or> isDigit char then Some (parseNumber json index)
         else Some (Inl SyntaxError))"
| "parseObject n json reviver index0 =
     (let index = skipWhitespace json (index0 + 1) in
      if json_at json index = Some CHR ''}'' then
        (case applyReviver n reviver (JObject []) of
           None \<Rightarrow> None
         | Some v \<Rightarrow> Some (Inr (v, index + 1)))
      else parseObjectLoop n json reviver index [])"
| "parseObjectLoop 0 json reviver index0 result = None"
| "parseObjectLoop (Suc n) json reviver index0 result =
     (let index1 = skipWhitespace json index0 in
      case parseString n json index1 of
        None \<Rightarrow> None
      | Some (key, index2) \<Rightarrow>
          (let index3 = skipWhitespace json index2 in
           if json_at json index3 \<noteq> Some CHR '':'' then Some (Inl SyntaxError)
           else
             (let index4 = skipWhitespace json (index3 + 1) in
              case parseValue n json reviver index4 of
                None \<Rightarrow> None
              | Some (Inl e) \<Rightarrow> Some (Inl e)
              | Some (Inr (v, index5)) \<Rightarrow>
                  (let result' = obj_set result key v;
                       index6 = skipWhitespace json index5
                   in if json_at json index6 = Some CHR ''}'' then
                        (case applyReviver n reviver (JObject result') of
                           None \<Rightarrow> None
                         | Some x \<Rightarrow> Some (Inr (x, index6 + 1)))
                      else if json_at json index6 \<noteq> Some CHR '','' then Some (Inl SyntaxError)
                      else parseObjectLoop n json reviver (index6 + 1) result'))))"
| "parseArray n json reviver index0 =
     (let index = skipWhitespace json (index0 + 1) in
      if json_at json index = Some CHR '']'' then
        (case applyReviver n reviver (JArray []) of
           None \<Rightarrow> None
         | Some v \<Rightarrow> Some (Inr (v, index + 1)))
      else parseArrayLoop n json reviver index [])"
| "parseArrayLoop 0 json reviver index0 result = None"
| "parseArrayLoop (Suc n) json reviver index0 result =
     (let index1 = skipWhitespace json index0 in
      case parseValue n json reviver index1 of
        None \<Rightarrow> None
      | Some (Inl e) \<Rightarrow> Some (Inl e)
      | Some (Inr (v, index2)) \<Rightarrow>
          (let result' = result @ [v];
               index3 = skipWhitespace json index2
           in if json_at json index3 = Some CHR '']'' then
                (case applyReviver n reviver (JArray result') of
                   None \<Rightarrow> None
                 | Some x \<Rightarrow> Some (Inr (x, index3 + 1)))
              else if json_at json index3 \<noteq> Some CHR '','' then Some (Inl SyntaxError)
              else parseArrayLoop n json reviver (index3 + 1) result'))"
  by pat_completeness auto
termination
  by (relation "measure (\<lambda>x. case x of
          Inl (Inl (n, json, reviver, index0)) \<Rightarrow> 2 * n
        | Inl (Inr (n, json, reviver, index0)) \<Rightarrow> 2 * n + 1
        | Inr (Inl (n, json, reviver, index0, result)) \<Rightarrow> 2 * n
        | Inr (Inr (Inl (n, json, reviver, index0))) \<Rightarrow> 2 * n + 1
        | Inr (Inr (Inr (n, json, reviver, index0, result))) \<Rightarrow> 2 * n)") auto

declare parseValue.simps [simp del] parseObject.simps [simp del] parseObjectLoop.simps [simp del]
  parseArray.simps [simp del] parseArrayLoop.simps [simp del]

text \<open>
  The entry point: one value, the whitespace after it, the end of the text, and the
  last call of the reviver on the root with the empty key.
\<close>

definition myParse :: "nat \<Rightarrow> string \<Rightarrow> reviver option \<Rightarrow> (parse_error + json) option" where
  "myParse n json reviver =
     (case parseValue n json reviver 0 of
        None \<Rightarrow> None
      | Some (Inl e) \<Rightarrow> Some (Inl e)
      | Some (Inr (result, index0)) \<Rightarrow>
          (let index = skipWhitespace json index0 in
           if index < length json then Some (Inl SyntaxError)
           else Some (Inr (case reviver of
                             None \<Rightarrow> result
                           | Some rv \<Rightarrow> newValue_of rv '''' result))))"

section \<open>Notions used in the properties\<close>

subsection \<open>Reachability in the store\<close>

text \<open>
  The ownership edges of a store: \<open>b\<close> is a child of \<open>a\<close> when the array or object at
  \<open>a\<close> holds a reference to \<open>b\<close> as an element or as the value of an entry. The
  addresses met on the way down from a visited object are the ones a visit pushes.
\<close>

definition children :: "store \<Rightarrow> addr \<Rightarrow> addr set" where
  "children h a =
     (case lookup h a of
        None \<Rightarrow> {}
      | Some (CArr array) \<Rightarrow> {b. Some (VRef b) \<in> set array}
      | Some (CObj obj) \<Rightarrow> {b. VRef b \<in> snd ` set obj})"

definition edges :: "store \<Rightarrow> (addr \<times> addr) set" where
  "edges h = {(a, b). b \<in> children h a}"

text \<open>
  From \<open>b\<close> the visit must fail: an object of the stack, or an object that reaches itself,
  is reachable from \<open>b\<close>.
\<close>

definition active_or_cyclic :: "store \<Rightarrow> addr list \<Rightarrow> addr \<Rightarrow> bool" where
  "active_or_cyclic h stack b \<longleftrightarrow>
     (\<exists>s. s \<in> set stack \<and> s < length h \<and> (b, s) \<in> (edges h)\<^sup>*) \<or>
     (\<exists>c. (b, c) \<in> (edges h)\<^sup>* \<and> (c, c) \<in> (edges h)\<^sup>+)"

text \<open>The keys of all the objects of a store.\<close>

definition object_keys :: "store \<Rightarrow> string set" where
  "object_keys h = {k. \<exists>obj v. CObj obj \<in> set h \<and> (k, v) \<in> set obj}"

subsection \<open>The effect of a replacer\<close>

text \<open>
  The store in which a replacer has been applied to the content of every array and
  object: to every element of an array with the empty key, and to the value of every
  entry of an object with the key of the entry. A hole stays a hole.
\<close>

definition replaced_container :: "replacer \<Rightarrow> container \<Rightarrow> container" where
  "replaced_container f c =
     (case c of
        CArr array \<Rightarrow> CArr (map (map_option (f '''')) array)
      | CObj obj \<Rightarrow> CObj (map (\<lambda>(key, v). (key, f key v)) obj))"

definition replaced :: "replacer \<Rightarrow> store \<Rightarrow> store" where
  "replaced f h = map (replaced_container f) h"

subsection \<open>Texts and revivers of the examples\<close>

definition quoted :: "string \<Rightarrow> string" where
  "quoted s = [DQUOTE] @ s @ [DQUOTE]"

text \<open>The reviver \<^verbatim>\<open>(key, value) => typeof value === "string" ? value + "!" : value\<close>.\<close>

definition exclaim :: reviver where
  "exclaim key v = (case v of JString s \<Rightarrow> Fresh (JString (s @ ''!'')) | _ \<Rightarrow> Same)"

text \<open>
  The walk of a parsed tree as the specification words it for the reviver: bottom-up,
  the children of a node before the node, every node passed to the reviver once, a
  result \<^verbatim>\<open>undefined\<close> deleting the entry, and the root last, with the empty key. This
  is the reference the parser is compared with, not a function of the source.
\<close>

fun revive_once :: "reviver \<Rightarrow> string \<Rightarrow> json \<Rightarrow> json"
  and revive_once_elements :: "reviver \<Rightarrow> nat \<Rightarrow> json list \<Rightarrow> json list"
  and revive_once_entries :: "reviver \<Rightarrow> (string \<times> json) list \<Rightarrow> (string \<times> json) list"
where
  "revive_once rv key (JArray xs) = newValue_of rv key (JArray (revive_once_elements rv 0 xs))"
| "revive_once rv key (JObject es) = newValue_of rv key (JObject (revive_once_entries rv es))"
| "revive_once rv key JNull = newValue_of rv key JNull"
| "revive_once rv key (JBool b) = newValue_of rv key (JBool b)"
| "revive_once rv key (JNumber n) = newValue_of rv key (JNumber n)"
| "revive_once rv key (JString s) = newValue_of rv key (JString s)"
| "revive_once rv key JUndefined = newValue_of rv key JUndefined"
| "revive_once rv key JEmpty = newValue_of rv key JEmpty"
| "revive_once_elements rv i [] = []"
| "revive_once_elements rv i (x # xs) =
     (let y = revive_once rv (nat_digits i) x
      in (if y = JUndefined then JEmpty else y) # revive_once_elements rv (i + 1) xs)"
| "revive_once_entries rv [] = []"
| "revive_once_entries rv ((k, x) # es) =
     (let y = revive_once rv k x
      in if y = JUndefined then revive_once_entries rv es else (k, y) # revive_once_entries rv es)"

subsection \<open>JSON texts\<close>


text \<open>
  A number: an optional minus sign, an integer part with no leading zero, an optional
  fraction and an optional exponent. The digits are the code units \<^verbatim>\<open>%x30-39\<close>.
\<close>

definition json_digit :: "char \<Rightarrow> bool" where
  "json_digit c = ((48::nat) \<le> of_char c \<and> of_char c \<le> (57::nat))"










text \<open>
  A text that cannot be taken for more of a number that stands before it: it is empty,
  or it starts with no digit, point or exponent letter. In a valid JSON text every
  value is followed by such a text.
\<close>

definition number_ends :: "string \<Rightarrow> bool" where
  "number_ends post =
     (case post of
        [] \<Rightarrow> True
      | c # cs \<Rightarrow> \<not> json_digit c \<and> c \<noteq> CHR ''.'' \<and> c \<noteq> CHR ''e'' \<and> c \<noteq> CHR ''E'')"


section \<open>Properties of the serializer\<close>

subsection \<open>Auxiliary facts\<close>

lemma replicate_num: "replicate (numeral k) x = x # replicate (pred_numeral k) x"
  by (simp add: numeral_eq_Suc)

lemmas stringify_eval =
  myStringify_def stringifyValue.simps stringifyArray.simps stringifyObject.simps
  applyReplacer_def lookup_def indent_of_def repeat_def String_number_def String_digits_def
  normalise.simps nat_digits.simps digit_char_def escapeString_def escape_class_def escapeString_escapes_def
  String_bool_def replicate_num

lemma mapE_all_Inr: "(\<And>x. x \<in> set xs \<Longrightarrow> f x = Inr (g x)) \<Longrightarrow> mapE f xs = Inr (map g xs)"
  by (induction xs) auto

lemma filterE_all_Inr: "(\<And>x. x \<in> set xs \<Longrightarrow> f x = Inr (p x)) \<Longrightarrow> filterE f xs = Inr (filter p xs)"
  by (induction xs) auto

lemma mapE_Inl: "x \<in> set xs \<Longrightarrow> f x = Inl e \<Longrightarrow> \<exists>e'. mapE f xs = Inl e'"
  by (induction xs) (auto split: sum.splits)

lemma filterE_Inl: "x \<in> set xs \<Longrightarrow> f x = Inl e \<Longrightarrow> \<exists>e'. filterE f xs = Inl e'"
  by (induction xs) (auto split: sum.splits)

lemma filterE_subset: "filterE f xs = Inr ys \<Longrightarrow> set ys \<subseteq> set xs"
  by (induction xs arbitrary: ys) (auto split: sum.splits if_splits)

lemma isl_mapE: "isl (mapE f xs) = (\<exists>x \<in> set xs. isl (f x))"
  by (induction xs) (auto split: sum.splits)

lemma isl_case_sum: "isl (case x of Inl e \<Rightarrow> Inl e | Inr t \<Rightarrow> Inr (g t)) = isl x"
  by (cases x) auto

lemma mapE_map: "mapE f (map g xs) = mapE (\<lambda>x. f (g x)) xs"
  by (induction xs) (auto split: sum.splits)

lemma filterE_map:
  "filterE f (map g xs) = (case filterE (\<lambda>x. f (g x)) xs of Inl e \<Rightarrow> Inl e | Inr ys \<Rightarrow> Inr (map g ys))"
  by (induction xs) (auto split: sum.splits)

lemma join_prefix: "xs \<noteq> [] \<Longrightarrow> p @ join (c @ p) xs = join c (map (\<lambda>x. p @ x) xs)"
  by (induction c xs rule: join.induct) auto

lemma error_unique: "(e :: error) = CyclicError"
  by (cases e) simp

lemma error_eq: "(e :: error) = e'"
  by (cases e; cases e') simp

lemma lookup_in_store: "lookup h a = Some c \<Longrightarrow> c \<in> set h"
  by (auto simp: lookup_def split: if_splits)

text \<open>An array or object never serializes to \<^verbatim>\<open>undefined\<close>.\<close>

lemma stringifyArray_defined: "stringifyArray h r indent stack a array depth \<noteq> Inr None"
  by (simp add: stringifyArray.simps Let_def split: sum.splits)

lemma stringifyObject_defined: "stringifyObject h r indent stack a obj depth \<noteq> Inr None"
  by (simp add: stringifyObject.simps Let_def split: sum.splits)

text \<open>
  Whether a visit throws, and whether its result is \<^verbatim>\<open>undefined\<close>, does not depend on the
  depth, which only counts the indent units.
\<close>

lemma depth_irrelevant:
  shows "isl (stringifyValue h r indent stack key v depth) = isl (stringifyValue h r indent stack key v d') \<and>
         (stringifyValue h r indent stack key v depth = Inr None) =
         (stringifyValue h r indent stack key v d' = Inr None)"
    and "isl (stringifyArray h r indent stack a array depth) = isl (stringifyArray h r indent stack a array d')"
    and "isl (stringifyObject h r indent stack a obj depth) = isl (stringifyObject h r indent stack a obj d')"
proof (induction h r indent stack key v depth and h r indent stack a array depth and h r indent stack a obj depth
       arbitrary: d' and d' and d'
       rule: stringifyValue_stringifyArray_stringifyObject.induct)
  case (1 h r indent stack key v0 depth)
  show ?case
  proof (cases "applyReplacer r key v0")
    case (VRef b)
    show ?thesis
    proof (cases "lookup h b")
      case None
      then show ?thesis by (simp add: stringifyValue.simps VRef)
    next
      case (Some c)
      show ?thesis
      proof (cases "b \<in> set stack")
        case True
        then show ?thesis by (simp add: stringifyValue.simps VRef Some)
      next
        case False
        show ?thesis
        proof (cases c)
          case (CArr array)
          from 1(1)[OF VRef Some False CArr, of d'] show ?thesis
            by (simp add: stringifyValue.simps VRef Some False CArr stringifyArray_defined)
        next
          case (CObj obj)
          from 1(2)[OF VRef Some False CObj, of d'] show ?thesis
            by (simp add: stringifyValue.simps VRef Some False CObj stringifyObject_defined)
        qed
      qed
    qed
  qed (simp_all add: stringifyValue.simps)
next
  case (2 h r indent stack a array depth)
  let ?f = "\<lambda>d slot. case slot of
                    None \<Rightarrow> Inr ''''
                  | Some item \<Rightarrow>
                      (case stringifyValue h r indent (stack @ [a]) '''' item (d + 1) of
                         Inl e \<Rightarrow> Inl (e :: error)
                       | Inr t \<Rightarrow> Inr (case t of None \<Rightarrow> ''null'' | Some s \<Rightarrow> s))"
  have "isl (?f depth slot) = isl (?f d' slot)" if "slot \<in> set array" for slot
  proof (cases slot)
    case None
    then show ?thesis by simp
  next
    case (Some item)
    from 2(1)[OF that Some, of "d' + 1"] show ?thesis
      by (simp add: Some isl_case_sum)
  qed
  then have "isl (mapE (?f depth) array) = isl (mapE (?f d') array)"
    by (simp add: isl_mapE)
  then show ?case
    unfolding stringifyArray.simps Let_def isl_case_sum .
next
  case (3 h r indent stack a obj depth)
  let ?F = "\<lambda>d. (\<lambda>(key, v). case stringifyValue h r indent (stack @ [a]) key v d of
                       Inl e \<Rightarrow> Inl (e :: error) | Inr t \<Rightarrow> Inr (t \<noteq> None))"
  let ?G = "\<lambda>d. (\<lambda>(key, v).
                       case stringifyValue h r indent (stack @ [a]) key v (d + 1) of
                         Inl e \<Rightarrow> Inl (e :: error)
                       | Inr t \<Rightarrow>
                           Inr ((if indent \<noteq> [] then repeat indent (d + 1) else '''') @
                                [DQUOTE] @ key @ [DQUOTE] @ '':'' @
                                (if indent \<noteq> [] then '' '' else '''') @
                                (case t of None \<Rightarrow> ''undefined'' | Some s \<Rightarrow> s)))"
  have F: "?F depth x = ?F d' x" if "x \<in> set obj" for x
  proof -
    obtain k v where kv: "x = (k, v)" by (cases x)
    from 3(1)[OF that kv[symmetric], of d'] show ?thesis
      by (cases "stringifyValue h r indent (stack @ [a]) k v depth";
          cases "stringifyValue h r indent (stack @ [a]) k v d'")
         (auto simp: kv intro: error_eq)
  qed
  then have f: "filterE (?F depth) obj = filterE (?F d') obj"
    by (intro filterE_cong[OF refl]) simp
  show ?case
  proof (cases "filterE (?F depth) obj")
    case (Inl e)
    with f have "filterE (?F d') obj = Inl e" by simp
    with Inl show ?thesis by (simp only: stringifyObject.simps sum.case)
  next
    case (Inr kept)
    have "isl (?G depth x) = isl (?G d' x)" if "x \<in> set kept" for x
    proof -
      obtain k v where kv: "x = (k, v)" by (cases x)
      from 3(2)[OF Inr that kv[symmetric], of "d' + 1"] show ?thesis
        by (simp add: kv isl_case_sum)
    qed
    then have m: "isl (mapE (?G depth) kept) = isl (mapE (?G d') kept)"
      by (simp add: isl_mapE)
    from f Inr have f': "filterE (?F d') obj = Inr kept" by simp
    show ?thesis
      unfolding stringifyObject.simps Inr f' sum.case Let_def isl_case_sum by (rule m)
  qed
qed

text \<open>
  The text of an array and of an object, once every element is known to serialize
  without an exception: \<open>t x\<close> is the result for the element \<open>x\<close>, and \<open>w k v\<close> the
  result for the entry of key \<open>k\<close> and value \<open>v\<close>.
\<close>

lemma stringifyArray_text:
  assumes "\<forall>x. Some x \<in> set array \<longrightarrow>
             stringifyValue h r indent (stack @ [a]) [] x (depth + 1) = Inr (t x)"
  shows "stringifyArray h r indent stack a array depth =
     (let items = map (\<lambda>slot. case slot of
                                None \<Rightarrow> ''''
                              | Some x \<Rightarrow> (case t x of None \<Rightarrow> ''null'' | Some s \<Rightarrow> s)) array;
          result = join (if indent \<noteq> [] then '','' @ [NEWLINE] @ repeat indent (depth + 1) else '','') items
      in Inr (Some (''['' @
                (if indent \<noteq> []
                 then [NEWLINE] @ repeat indent (depth + 1) @ result @ [NEWLINE] @ repeat indent depth
                 else result) @ '']'')))"
proof -
  have "mapE (\<lambda>slot. case slot of
                    None \<Rightarrow> Inr ''''
                  | Some item \<Rightarrow>
                      (case stringifyValue h r indent (stack @ [a]) '''' item (depth + 1) of
                         Inl e \<Rightarrow> Inl e
                       | Inr t \<Rightarrow> Inr (case t of None \<Rightarrow> ''null'' | Some s \<Rightarrow> s))) array
        = Inr (map (\<lambda>slot. case slot of
                                None \<Rightarrow> ''''
                              | Some x \<Rightarrow> (case t x of None \<Rightarrow> ''null'' | Some s \<Rightarrow> s)) array)"
    by (rule mapE_all_Inr) (use assms in \<open>auto split: option.splits\<close>)
  then show ?thesis
    by (simp only: stringifyArray.simps sum.case Let_def)
qed

lemma stringifyObject_text:
  assumes M: "\<forall>(k, v) \<in> set obj.
                stringifyValue h r indent (stack @ [a]) k v (depth + 1) = Inr (w k v)"
  shows "stringifyObject h r indent stack a obj depth =
     (let kept = filter (\<lambda>(k, v). w k v \<noteq> None) obj;
          entries = map (\<lambda>(k, v). (if indent \<noteq> [] then repeat indent (depth + 1) else '''') @
                                [DQUOTE] @ k @ [DQUOTE] @ '':'' @
                                (if indent \<noteq> [] then '' '' else '''') @ the (w k v)) kept;
          result = join (if indent \<noteq> [] then '','' @ [NEWLINE] else '','') entries
      in Inr (Some (''{'' @
                     (if indent \<noteq> []
                      then [NEWLINE] @ result @ [NEWLINE] @ repeat indent depth
                      else result) @ ''}'')))"
proof -
  let ?kept = "filter (\<lambda>(k, v). w k v \<noteq> None) obj"
  have F: "(case stringifyValue h r indent (stack @ [a]) k v depth of
              Inl e \<Rightarrow> Inl e | Inr t \<Rightarrow> Inr (t \<noteq> None)) = Inr (w k v \<noteq> None)"
    if "(k, v) \<in> set obj" for k v
  proof -
    from M that have m: "stringifyValue h r indent (stack @ [a]) k v (depth + 1) = Inr (w k v)"
      by auto
    from depth_irrelevant(1)[of h r indent "stack @ [a]" k v depth "depth + 1"] m
    show ?thesis
      by (cases "stringifyValue h r indent (stack @ [a]) k v depth") auto
  qed
  have 1: "filterE (\<lambda>(key, v). case stringifyValue h r indent (stack @ [a]) key v depth of
                       Inl e \<Rightarrow> Inl e | Inr t \<Rightarrow> Inr (t \<noteq> None)) obj
        = Inr ?kept"
    by (rule filterE_all_Inr) (use F in auto)
  have 2: "mapE (\<lambda>(key, v).
                       case stringifyValue h r indent (stack @ [a]) key v (depth + 1) of
                         Inl e \<Rightarrow> Inl e
                       | Inr t \<Rightarrow>
                           Inr ((if indent \<noteq> [] then repeat indent (depth + 1) else '''') @
                                [DQUOTE] @ key @ [DQUOTE] @ '':'' @
                                (if indent \<noteq> [] then '' '' else '''') @
                                (case t of None \<Rightarrow> ''undefined'' | Some s \<Rightarrow> s)))
                  ?kept
       = Inr (map (\<lambda>(k, v). (if indent \<noteq> [] then repeat indent (depth + 1) else '''') @
                                [DQUOTE] @ k @ [DQUOTE] @ '':'' @
                                (if indent \<noteq> [] then '' '' else '''') @ the (w k v)) ?kept)"
    by (rule mapE_all_Inr) (use M in auto)
  show ?thesis
    by (simp only: stringifyObject.simps 1 2 sum.case Let_def)
qed

subsection \<open>Cycle detection\<close>

lemma edge_valid: "(a, b) \<in> edges h \<Longrightarrow> a < length h"
  by (auto simp: edges_def children_def lookup_def split: if_splits)

lemma trancl_valid: "(a, b) \<in> (edges h)\<^sup>+ \<Longrightarrow> a < length h"
  by (meson edge_valid tranclD)

lemma active_or_cyclic_valid: "active_or_cyclic h stack b \<Longrightarrow> b < length h"
  unfolding active_or_cyclic_def
  by (metis rtranclD trancl_valid)

text \<open>One step down: if the visit of \<open>b\<close> must fail and \<open>b\<close> is not on the stack, the visit
  of one of its children, with \<open>b\<close> pushed, must fail.\<close>

lemma active_or_cyclic_step:
  assumes "active_or_cyclic h stack b" and "b \<notin> set stack"
  shows "\<exists>b'. (b, b') \<in> edges h \<and> active_or_cyclic h (stack @ [b]) b'"
proof -
  have v: "b < length h" using assms(1) by (rule active_or_cyclic_valid)
  from assms(1) consider
      (act) s where "s \<in> set stack" "s < length h" "(b, s) \<in> (edges h)\<^sup>*"
    | (cyc) c where "(b, c) \<in> (edges h)\<^sup>*" "(c, c) \<in> (edges h)\<^sup>+"
    unfolding active_or_cyclic_def by blast
  then show ?thesis
  proof cases
    case act
    then have "b \<noteq> s" using assms(2) by auto
    with act(3) obtain b' where "(b, b') \<in> edges h" "(b', s) \<in> (edges h)\<^sup>*"
      by (meson converse_rtranclE)
    with act(1,2) show ?thesis
      unfolding active_or_cyclic_def by auto
  next
    case cyc
    show ?thesis
    proof (cases "b = c")
      case True
      with cyc(2) obtain b' where "(b, b') \<in> edges h" "(b', b) \<in> (edges h)\<^sup>*"
        by (meson tranclD)
      with v show ?thesis
        unfolding active_or_cyclic_def by auto
    next
      case False
      with cyc(1) obtain b' where "(b, b') \<in> edges h" "(b', c) \<in> (edges h)\<^sup>*"
        by (meson converse_rtranclE)
      with cyc(2) show ?thesis
        unfolding active_or_cyclic_def by auto
    qed
  qed
qed

lemma cyclic_detected:
  shows "\<forall>key b. applyReplacer r key (VRef b) = VRef b \<Longrightarrow> v = VRef b \<Longrightarrow> active_or_cyclic h stack b \<Longrightarrow>
           stringifyValue h r indent stack key v depth = Inl CyclicError"
    and "\<forall>key b. applyReplacer r key (VRef b) = VRef b \<Longrightarrow> Some (VRef b) \<in> set array \<Longrightarrow> active_or_cyclic h (stack @ [a]) b \<Longrightarrow>
           stringifyArray h r indent stack a array depth = Inl CyclicError"
    and "\<forall>key b. applyReplacer r key (VRef b) = VRef b \<Longrightarrow> VRef b \<in> snd ` set obj \<Longrightarrow> active_or_cyclic h (stack @ [a]) b \<Longrightarrow>
           stringifyObject h r indent stack a obj depth = Inl CyclicError"
proof (induction h r indent stack key v depth and h r indent stack a array depth and h r indent stack a obj depth
       arbitrary: b and b and b
       rule: stringifyValue_stringifyArray_stringifyObject.induct)
  case (1 h r indent stack key v0 depth)
  have v: "b < length h" using 1(5) by (rule active_or_cyclic_valid)
  then have lk: "lookup h b = Some (h ! b)" by (simp add: lookup_def)
  have ar: "applyReplacer r key v0 = VRef b" using 1(3,4) by simp
  show ?case
  proof (cases "b \<in> set stack")
    case True
    then show ?thesis
      by (simp add: stringifyValue.simps ar lk)
  next
    case False
    from active_or_cyclic_step[OF 1(5) False] obtain b'
      where e: "(b, b') \<in> edges h" and b': "active_or_cyclic h (stack @ [b]) b'" by blast
    show ?thesis
    proof (cases "h ! b")
      case (CArr array)
      with e lk have "Some (VRef b') \<in> set array"
        by (simp add: edges_def children_def)
      from 1(1)[OF ar lk False CArr 1(3) this b'] show ?thesis
        by (simp add: stringifyValue.simps ar lk False CArr)
    next
      case (CObj obj)
      with e lk have "VRef b' \<in> snd ` set obj"
        by (simp add: edges_def children_def)
      from 1(2)[OF ar lk False CObj 1(3) this b'] show ?thesis
        by (simp add: stringifyValue.simps ar lk False CObj)
    qed
  qed
next
  case (2 h r indent stack a array depth)
  from 2(1)[OF 2(3) refl 2(2) refl 2(4)]
  have "stringifyValue h r indent (stack @ [a]) [] (VRef b) (depth + 1) = Inl CyclicError" .
  then have "\<exists>e'. mapE (\<lambda>slot. case slot of
                    None \<Rightarrow> Inr ''''
                  | Some item \<Rightarrow>
                      (case stringifyValue h r indent (stack @ [a]) '''' item (depth + 1) of
                         Inl e \<Rightarrow> Inl e
                       | Inr t \<Rightarrow> Inr (case t of None \<Rightarrow> ''null'' | Some s \<Rightarrow> s))) array = Inl e'"
    by (intro mapE_Inl[OF 2(3)]) simp
  then obtain e' where m: "mapE (\<lambda>slot. case slot of
                    None \<Rightarrow> Inr ''''
                  | Some item \<Rightarrow>
                      (case stringifyValue h r indent (stack @ [a]) '''' item (depth + 1) of
                         Inl e \<Rightarrow> Inl e
                       | Inr t \<Rightarrow> Inr (case t of None \<Rightarrow> ''null'' | Some s \<Rightarrow> s))) array = Inl e'"
    by blast
  have "e' = CyclicError" by (rule error_unique)
  with m show ?case
    by (simp only: stringifyArray.simps sum.case)
next
  case (3 h r indent stack a obj depth)
  from 3(4) obtain k where k: "(k, VRef b) \<in> set obj" by force
  from 3(1)[OF k refl 3(3) refl 3(5)]
  have "stringifyValue h r indent (stack @ [a]) k (VRef b) depth = Inl CyclicError" .
  then have "\<exists>e'. filterE (\<lambda>(key, v).
                     case stringifyValue h r indent (stack @ [a]) key v depth of
                       Inl e \<Rightarrow> Inl e
                     | Inr t \<Rightarrow> Inr (t \<noteq> None)) obj = Inl e'"
    by (intro filterE_Inl[OF k]) simp
  then show ?case
    by (auto simp: stringifyObject.simps error_unique)
qed

text \<open>
  \<^bold>\<open>C5.\<close> Whenever an array or object that reaches itself through ownership edges is
  reachable from the value (\<open>c\<close> is such an object, reached from the root \<open>a\<close>), the
  call throws the cyclic-reference error: the result is the error alone, with no text.
  This holds for a call without a replacer and for one whose replacer returns every
  array and object as it is. The test is the membership of the address, the identity
  of the object, in the stack, and it is made before the object is entered.
\<close>

theorem cyclic_value_throws:
  assumes "(a, c) \<in> (edges h)\<^sup>*" and "(c, c) \<in> (edges h)\<^sup>+"
    and "\<forall>key b. applyReplacer r key (VRef b) = VRef b"
  shows "myStringify h (VRef a) r sp = Inl CyclicError"
  unfolding myStringify_def
  by (rule cyclic_detected(1)[OF assms(3) refl]) (use assms in \<open>auto simp: active_or_cyclic_def\<close>)

text \<open>The example of the specification: \<^verbatim>\<open>a = {}; a.self = a\<close>.\<close>

theorem cyclic_value_throws_witness:
  "(0, 0) \<in> (edges [CObj [(''self'', VRef 0)]])\<^sup>* \<and>
   (0, 0) \<in> (edges [CObj [(''self'', VRef 0)]])\<^sup>+ \<and>
   myStringify [CObj [(''self'', VRef 0)]] (VRef 0) None (SpaceNumber 0) = Inl CyclicError"
proof -
  have e: "(0, 0) \<in> edges [CObj [(''self'', VRef 0)]]"
    by (simp add: edges_def children_def lookup_def)
  then have t: "(0, 0) \<in> (edges [CObj [(''self'', VRef 0)]])\<^sup>+"
    by (rule r_into_trancl)
  have r: "(0, 0) \<in> (edges [CObj [(''self'', VRef 0)]])\<^sup>*"
    by (rule rtrancl.rtrancl_refl)
  have n: "\<forall>key b. applyReplacer None key (VRef b) = VRef b"
    by (simp add: applyReplacer_def)
  from cyclic_value_throws[OF r t n] r t show ?thesis by simp
qed

text \<open>
  An object met twice without being its own descendant is no cycle: it is not on the
  stack at the second visit. \<^verbatim>\<open>s = {}; stringify([s, s])\<close> gives \<^verbatim>\<open>[{},{}]\<close>.
\<close>

lemma shared_object_is_serialized:
  "myStringify [CArr [Some (VRef 1), Some (VRef 1)], CObj []] (VRef 0) None (SpaceNumber 0) =
     Inr (Some ''[{},{}]'')"
  by (simp add: stringify_eval)

subsection \<open>Unsupported values, keys and layout\<close>

text \<open>
  \<^bold>\<open>C4.\<close> The key of an object entry is the subject of no escaping: it stands between the
  two quotes as it is, whatever it contains, while the same string as a value goes
  through \<open>escapeString\<close>. For a key with a double quote the output is not well-formed
  JSON.
\<close>

theorem object_key_not_escaped:
  "myStringify [CObj [(key, VNull)]] (VRef 0) None (SpaceNumber 0) =
     Inr (Some (''{'' @ [DQUOTE] @ key @ [DQUOTE] @ '':null}'')) \<and>
   myStringify [] (VString key) None (SpaceNumber 0) =
     Inr (Some ([DQUOTE] @ escapeString key @ [DQUOTE]))"
  by (simp add: myStringify_def stringifyValue.simps stringifyObject.simps applyReplacer_def
      lookup_def indent_of_def repeat_def)

text \<open>The object \<^verbatim>\<open>{'a"b': 1}\<close> gives \<^verbatim>\<open>{"a"b":1}\<close>; the string \<^verbatim>\<open>a"b\<close> gives \<^verbatim>\<open>"a\"b"\<close>.\<close>

lemma object_key_with_quote:
  "myStringify [CObj [([CHR ''a'', DQUOTE, CHR ''b''], VNumber (Fin 1 0))]] (VRef 0) None (SpaceNumber 0) =
     Inr (Some ([CHR ''{'', DQUOTE, CHR ''a'', DQUOTE, CHR ''b'', DQUOTE, CHR '':'', CHR ''1'', CHR ''}''])) \<and>
   myStringify [] (VString [CHR ''a'', DQUOTE, CHR ''b'']) None (SpaceNumber 0) =
     Inr (Some [DQUOTE, CHR ''a'', BSLASH, DQUOTE, CHR ''b'', DQUOTE])"
  by (simp add: stringify_eval)

text \<open>
  \<^bold>\<open>C6.\<close> The text of an array and of an object whose elements and entries serialize
  without an exception, \<open>t x\<close> being the result for the element \<open>x\<close> and \<open>w k v\<close> the
  result for the entry of key \<open>k\<close> and value \<open>v\<close>. The array gives one text for every
  slot, in order: the text of the element, or \<^verbatim>\<open>null\<close> when the result of the element is
  \<^verbatim>\<open>undefined\<close> (no representation), so that no slot is dropped and every text stands at
  the index of its element; a hole, which is no element, gives the empty text between
  its commas. The object gives one entry for every entry whose result is not
  \<^verbatim>\<open>undefined\<close>, in order, and nothing for the others.
\<close>

theorem no_representation_null_or_omitted:
  assumes A: "\<forall>x. Some x \<in> set array \<longrightarrow>
                stringifyValue h r indent (stack @ [a]) [] x (depth + 1) = Inr (t x)"
    and M: "\<forall>(k, v) \<in> set obj.
                stringifyValue h r indent (stack @ [b]) k v (depth + 1) = Inr (w k v)"
  shows "stringifyArray h r indent stack a array depth =
           Inr (Some (''['' @
             (let items = map (\<lambda>slot. case slot of
                                         None \<Rightarrow> ''''
                                       | Some x \<Rightarrow> (case t x of None \<Rightarrow> ''null'' | Some s \<Rightarrow> s)) array
              in if indent \<noteq> []
                 then [NEWLINE] @ repeat indent (depth + 1) @
                      join ('','' @ [NEWLINE] @ repeat indent (depth + 1)) items @
                      [NEWLINE] @ repeat indent depth
                 else join '','' items) @ '']'')) \<and>
         stringifyObject h r indent stack b obj depth =
           Inr (Some (''{'' @
             (let entries = map (\<lambda>(k, v). (if indent \<noteq> [] then repeat indent (depth + 1) else '''') @
                                           [DQUOTE] @ k @ [DQUOTE] @ '':'' @
                                           (if indent \<noteq> [] then '' '' else '''') @ the (w k v))
                              (filter (\<lambda>(k, v). w k v \<noteq> None) obj)
              in if indent \<noteq> []
                 then [NEWLINE] @ join ('','' @ [NEWLINE]) entries @ [NEWLINE] @ repeat indent depth
                 else join '','' entries) @ ''}''))"
  unfolding stringifyArray_text[OF A] stringifyObject_text[OF M]
  by (simp add: Let_def)

text \<open>
  The examples: \<^verbatim>\<open>[1, undefined, "text"]\<close> gives \<^verbatim>\<open>[1,null,"text"]\<close>, and
  \<^verbatim>\<open>{a: 1, b: () => {}, c: {inner: undefined}}\<close> gives \<^verbatim>\<open>{"a":1,"c":{}}\<close>.
\<close>

theorem no_representation_null_or_omitted_witness:
  "stringifyArray [CObj [(''a'', VNumber (Fin 1 0)), (''b'', VFunction), (''c'', VRef 1)],
                   CObj [(''inner'', VUndefined)]] None [] [] 0
     [Some (VNumber (Fin 1 0)), Some VUndefined, Some (VString ''text'')] 0 =
     Inr (Some (''[1,null,'' @ [DQUOTE] @ ''text'' @ [DQUOTE] @ '']'')) \<and>
   myStringify [CObj [(''a'', VNumber (Fin 1 0)), (''b'', VFunction), (''c'', VRef 1)],
                CObj [(''inner'', VUndefined)]] (VRef 0) None (SpaceNumber 0) =
     Inr (Some (''{'' @ [DQUOTE] @ ''a'' @ [DQUOTE] @ '':1,'' @ [DQUOTE] @ ''c'' @ [DQUOTE] @ '':{}}''))"
proof -
  let ?h = "[CObj [(''a'', VNumber (Fin 1 0)), (''b'', VFunction), (''c'', VRef 1)],
             CObj [(''inner'', VUndefined)]]"
  let ?array = "[Some (VNumber (Fin 1 0)), Some VUndefined, Some (VString ''text'')]"
  let ?obj = "[(''a'', VNumber (Fin 1 0)), (''b'', VFunction), (''c'', VRef 1)]"
  let ?t = "\<lambda>x. if x = VNumber (Fin 1 0) then Some ''1''
                 else if x = VUndefined then None
                 else Some ([DQUOTE] @ ''text'' @ [DQUOTE])"
  let ?w = "\<lambda>k (v :: jsval). if k = ''a'' then Some ''1'' else if k = ''b'' then None else Some ''{}''"
  have A: "\<forall>x. Some x \<in> set ?array \<longrightarrow>
             stringifyValue ?h None [] ([] @ [0]) [] x (0 + 1) = Inr (?t x)"
    by (auto simp: stringify_eval)
  have M: "\<forall>(k, v) \<in> set ?obj. stringifyValue ?h None [] ([] @ [0]) k v (0 + 1) = Inr (?w k v)"
    by (auto simp: stringify_eval)
  have root: "myStringify ?h (VRef 0) None (SpaceNumber 0) = stringifyObject ?h None [] [] 0 ?obj 0"
    by (simp add: myStringify_def stringifyValue.simps applyReplacer_def lookup_def indent_of_def repeat_def)
  from no_representation_null_or_omitted[where array = ?array and h = ?h and r = None and indent = "[]"
        and stack = "[]" and a = 0 and depth = 0 and t = ?t and obj = ?obj and b = 0 and w = ?w, OF A M]
    root
  show ?thesis
    by simp
qed

text \<open>
  A hole is written as nothing: \<^verbatim>\<open>[1,,3]\<close> gives \<^verbatim>\<open>[1,,3]\<close>, and an array of one hole and
  one \<^verbatim>\<open>undefined\<close> gives \<^verbatim>\<open>[,null]\<close>.
\<close>

lemma hole_is_written_empty:
  "myStringify [CArr [Some (VNumber (Fin 1 0)), None, Some (VNumber (Fin 3 0))]] (VRef 0) None (SpaceNumber 0) =
     Inr (Some ''[1,,3]'') \<and>
   myStringify [CArr [None, Some VUndefined]] (VRef 0) None (SpaceNumber 0) = Inr (Some ''[,null]'')"
  by (simp add: stringify_eval)

lemma repeat_space: "repeat '' '' n = replicate n CHR '' ''"
  by (induction n) (simp_all add: repeat_def)

lemma join_map_prefix:
  "xs \<noteq> [] \<Longrightarrow> p @ join (c @ p) (map f xs) = join c (map (\<lambda>x. p @ f x) xs)"
  using join_prefix[of "map f xs" p c] by (simp add: comp_def)

text \<open>The two texts with the newline and the indent units moved before every element.\<close>

lemma array_layout:
  assumes "\<forall>x. Some x \<in> set array \<longrightarrow>
             stringifyValue h r unit (stack @ [a]) [] x (depth + 1) = Inr (t x)"
  shows "stringifyArray h r unit stack a array depth =
     Inr (Some
       (if unit = []
        then ''['' @
             join '','' (map (\<lambda>slot. case slot of
                                       None \<Rightarrow> ''''
                                     | Some x \<Rightarrow> (case t x of None \<Rightarrow> ''null'' | Some s \<Rightarrow> s)) array) @
             '']''
        else ''['' @
             (if map (\<lambda>slot. case slot of
                               None \<Rightarrow> ''''
                             | Some x \<Rightarrow> (case t x of None \<Rightarrow> ''null'' | Some s \<Rightarrow> s)) array = []
              then [NEWLINE] @ repeat unit (depth + 1)
              else join '',''
                     (map (\<lambda>s. [NEWLINE] @ repeat unit (depth + 1) @ s)
                        (map (\<lambda>slot. case slot of
                                       None \<Rightarrow> ''''
                                     | Some x \<Rightarrow> (case t x of None \<Rightarrow> ''null'' | Some s \<Rightarrow> s)) array))) @
             [NEWLINE] @ repeat unit depth @ '']''))"
proof -
  let ?g = "\<lambda>slot. case slot of
                     None \<Rightarrow> ''''
                   | Some x \<Rightarrow> (case t x of None \<Rightarrow> ''null'' | Some s \<Rightarrow> s)"
  let ?p = "[NEWLINE] @ repeat unit (depth + 1)"
  note ta = stringifyArray_text[OF assms]
  show ?thesis
  proof (cases "unit = []")
    case True
    then show ?thesis unfolding ta by (simp add: Let_def)
  next
    case False
    show ?thesis
    proof (cases "array = []")
      case True
      then show ?thesis unfolding ta using False by (simp add: Let_def)
    next
      case ne: False
      from join_map_prefix[OF ne, of ?p "'',''" ?g]
      have "?p @ join ('','' @ ?p) (map ?g array) = join '','' (map (\<lambda>x. ?p @ ?g x) array)" .
      then show ?thesis unfolding ta using False ne by (simp add: Let_def comp_def)
    qed
  qed
qed

lemma object_layout:
  assumes "\<forall>(k, x) \<in> set obj.
             stringifyValue h r unit (stack @ [a]) k x (depth + 1) = Inr (t k x)"
  shows "stringifyObject h r unit stack a obj depth =
     Inr (Some
       (if unit = []
        then ''{'' @
             join '','' (map (\<lambda>(k, x). [DQUOTE] @ k @ [DQUOTE] @ '':'' @ the (t k x))
                          (filter (\<lambda>(k, x). t k x \<noteq> None) obj)) @
             ''}''
        else ''{'' @
             (if filter (\<lambda>(k, x). t k x \<noteq> None) obj = [] then [NEWLINE]
              else join '',''
                     (map (\<lambda>(k, x). [NEWLINE] @ repeat unit (depth + 1) @
                                     [DQUOTE] @ k @ [DQUOTE] @ '': '' @ the (t k x))
                        (filter (\<lambda>(k, x). t k x \<noteq> None) obj))) @
             [NEWLINE] @ repeat unit depth @ ''}''))"
proof -
  let ?kept = "filter (\<lambda>(k, x). t k x \<noteq> None) obj"
  let ?e = "\<lambda>(k, x). repeat unit (depth + 1) @ [DQUOTE] @ k @ [DQUOTE] @ '': '' @ the (t k x)"
  note tb = stringifyObject_text[OF assms]
  show ?thesis
  proof (cases "unit = []")
    case True
    then show ?thesis unfolding tb by (simp add: Let_def)
  next
    case False
    show ?thesis
    proof (cases "?kept = []")
      case True
      then show ?thesis unfolding tb using False by (simp add: Let_def)
    next
      case ne: False
      from join_map_prefix[OF ne, of "[NEWLINE]" "'',''" ?e]
      have "[NEWLINE] @ join ('','' @ [NEWLINE]) (map ?e ?kept) =
            join '','' (map (\<lambda>x. [NEWLINE] @ ?e x) ?kept)" .
      also have "(\<lambda>x. [NEWLINE] @ ?e x) =
            (\<lambda>(k, x). [NEWLINE] @ repeat unit (depth + 1) @ [DQUOTE] @ k @ [DQUOTE] @ '': '' @ the (t k x))"
        by (simp add: fun_eq_iff)
      finally show ?thesis unfolding tb using False ne by (simp add: Let_def)
    qed
  qed
qed

text \<open>
  \<^bold>\<open>C8.\<close> The text of an array or object \<open>c\<close> met at the nesting level \<open>depth\<close>, where
  \<open>unit\<close> is the indent unit that the argument \<open>sp\<close> stands for (so many spaces, or the
  string itself) and \<open>t k x\<close> is the result for the child \<open>x\<close> visited with the key \<open>k\<close>.
  With a non-empty unit, every element or entry is preceded by a newline and \<open>depth + 1\<close>
  units, the closing bracket by a newline and \<open>depth\<close> units, the commas stand alone and
  one space follows the colon; a container with nothing to write keeps the line that
  its first element would have started. With the empty unit (no indent, or zero) the
  texts are joined by commas and nothing follows the colon. The call itself visits
  the root at level 0.
\<close>

theorem indent_layout:
  assumes U: "unit = (case sp of SpaceNumber n \<Rightarrow> replicate n CHR '' '' | SpaceString s \<Rightarrow> s)"
    and R: "applyReplacer r key v = VRef a" "a \<notin> set stack" "lookup h a = Some c"
    and A: "\<And>array x. c = CArr array \<Longrightarrow> Some x \<in> set array \<Longrightarrow>
              stringifyValue h r unit (stack @ [a]) [] x (depth + 1) = Inr (t [] x)"
    and M: "\<And>obj k x. c = CObj obj \<Longrightarrow> (k, x) \<in> set obj \<Longrightarrow>
              stringifyValue h r unit (stack @ [a]) k x (depth + 1) = Inr (t k x)"
  shows "let text =
           (case c of
              CArr array \<Rightarrow>
                (let items = map (\<lambda>slot. case slot of
                                           None \<Rightarrow> ''''
                                         | Some x \<Rightarrow> (case t [] x of None \<Rightarrow> ''null'' | Some s \<Rightarrow> s)) array
                 in if unit = [] then ''['' @ join '','' items @ '']''
                    else ''['' @
                         (if items = [] then [NEWLINE] @ repeat unit (depth + 1)
                          else join '','' (map (\<lambda>s. [NEWLINE] @ repeat unit (depth + 1) @ s) items)) @
                         [NEWLINE] @ repeat unit depth @ '']'')
            | CObj obj \<Rightarrow>
                (let entries = filter (\<lambda>(k, x). t k x \<noteq> None) obj
                 in if unit = []
                    then ''{'' @
                         join '','' (map (\<lambda>(k, x). [DQUOTE] @ k @ [DQUOTE] @ '':'' @ the (t k x)) entries) @
                         ''}''
                    else ''{'' @
                         (if entries = [] then [NEWLINE]
                          else join '','' (map (\<lambda>(k, x). [NEWLINE] @ repeat unit (depth + 1) @
                                                          [DQUOTE] @ k @ [DQUOTE] @ '': '' @ the (t k x))
                                             entries)) @
                         [NEWLINE] @ repeat unit depth @ ''}''))
         in stringifyValue h r (indent_of sp) stack key v depth = Inr (Some text) \<and>
            (stack = [] \<and> key = [] \<and> depth = 0 \<longrightarrow> myStringify h v r sp = Inr (Some text))"
    (is "Let ?T _")
proof -
  have u: "indent_of sp = unit"
    unfolding U by (cases sp) (simp_all add: indent_of_def repeat_space)
  have visit: "stringifyValue h r unit stack key v depth =
        (case c of CArr array \<Rightarrow> stringifyArray h r unit stack a array depth
                 | CObj obj \<Rightarrow> stringifyObject h r unit stack a obj depth)"
    using R by (simp add: stringifyValue.simps)
  have main: "stringifyValue h r unit stack key v depth = Inr (Some ?T)"
  proof (cases c)
    case (CArr array)
    from A[OF CArr]
    have "\<forall>x. Some x \<in> set array \<longrightarrow>
            stringifyValue h r unit (stack @ [a]) [] x (depth + 1) = Inr (t [] x)" by blast
    from array_layout[OF this] show ?thesis
      by (simp only: visit CArr container.case Let_def)
  next
    case (CObj obj)
    from M[OF CObj]
    have "\<forall>(k, x) \<in> set obj.
            stringifyValue h r unit (stack @ [a]) k x (depth + 1) = Inr (t k x)" by blast
    from object_layout[OF this] show ?thesis
      by (simp only: visit CObj container.case Let_def)
  qed
  then show ?thesis
    by (auto simp: myStringify_def u Let_def)
qed

text \<open>
  The example of the specification, \<^verbatim>\<open>stringify({name: "Alice", age: 25}, null, 2)\<close>, the
  same object with the indent zero, and the array \<^verbatim>\<open>[1, [2]]\<close> with a tab as indent.
\<close>

theorem indent_layout_witness:
  "myStringify [CObj [(''name'', VString ''Alice''), (''age'', VNumber (Fin 25 0))]] (VRef 0) None (SpaceNumber 2) =
     Inr (Some (''{'' @ [NEWLINE] @
                ''  '' @ [DQUOTE] @ ''name'' @ [DQUOTE] @ '': '' @ [DQUOTE] @ ''Alice'' @ [DQUOTE] @ '','' @ [NEWLINE] @
                ''  '' @ [DQUOTE] @ ''age'' @ [DQUOTE] @ '': 25'' @ [NEWLINE] @
                ''}'')) \<and>
   myStringify [CObj [(''name'', VString ''Alice''), (''age'', VNumber (Fin 25 0))]] (VRef 0) None (SpaceNumber 0) =
     Inr (Some (''{'' @ [DQUOTE] @ ''name'' @ [DQUOTE] @ '':'' @ [DQUOTE] @ ''Alice'' @ [DQUOTE] @ '','' @
                [DQUOTE] @ ''age'' @ [DQUOTE] @ '':25}'')) \<and>
   stringifyValue [CArr [Some (VNumber (Fin 1 0)), Some (VRef 1)], CArr [Some (VNumber (Fin 2 0))]]
       None (indent_of (SpaceString [TABCHAR])) [0] [] (VRef 1) 1 =
     Inr (Some (''['' @ [NEWLINE, TABCHAR, TABCHAR] @ ''2'' @ [NEWLINE, TABCHAR] @ '']''))"
proof -
  let ?obj = "[(''name'', VString ''Alice''), (''age'', VNumber (Fin 25 0))]"
  let ?h = "[CObj ?obj]"
  let ?t = "\<lambda>k (x :: jsval). if k = ''name'' then Some ([DQUOTE] @ ''Alice'' @ [DQUOTE]) else Some ''25''"
  let ?g = "[CArr [Some (VNumber (Fin 1 0)), Some (VRef 1)], CArr [Some (VNumber (Fin 2 0))]]"
  let ?s = "\<lambda>(k :: string) (x :: jsval). Some ''2''"
  have R: "applyReplacer None [] (VRef 0) = VRef 0" "0 \<notin> set ([] :: addr list)" "lookup ?h 0 = Some (CObj ?obj)"
    by (simp_all add: applyReplacer_def lookup_def)
  have M2: "\<And>obj k x. CObj ?obj = CObj obj \<Longrightarrow> (k, x) \<in> set obj \<Longrightarrow>
              stringifyValue ?h None ''  '' ([] @ [0]) k x (0 + 1) = Inr (?t k x)"
    by (auto simp: stringify_eval)
  have M0: "\<And>obj k x. CObj ?obj = CObj obj \<Longrightarrow> (k, x) \<in> set obj \<Longrightarrow>
              stringifyValue ?h None [] ([] @ [0]) k x (0 + 1) = Inr (?t k x)"
    by (auto simp: stringify_eval)
  have R1: "applyReplacer None [] (VRef 1) = VRef 1" "1 \<notin> set [0 :: addr]"
      "lookup ?g 1 = Some (CArr [Some (VNumber (Fin 2 0))])"
    by (simp_all add: applyReplacer_def lookup_def)
  have A1: "\<And>array x. CArr [Some (VNumber (Fin 2 0))] = CArr array \<Longrightarrow> Some x \<in> set array \<Longrightarrow>
              stringifyValue ?g None [TABCHAR] ([0] @ [1]) [] x (1 + 1) = Inr (?s [] x)"
    by (auto simp: stringify_eval)
  from indent_layout[where sp = "SpaceNumber 2" and unit = "''  ''" and r = None and key = "[]"
        and v = "VRef 0" and a = 0 and stack = "[]" and h = ?h and c = "CObj ?obj" and depth = 0
        and t = ?t, OF _ R _ M2]
    indent_layout[where sp = "SpaceNumber 0" and unit = "[]" and r = None and key = "[]"
        and v = "VRef 0" and a = 0 and stack = "[]" and h = ?h and c = "CObj ?obj" and depth = 0
        and t = ?t, OF _ R _ M0]
    indent_layout[where sp = "SpaceString [TABCHAR]" and unit = "[TABCHAR]" and r = None and key = "[]"
        and v = "VRef 1" and a = 1 and stack = "[0]" and h = ?g and c = "CArr [Some (VNumber (Fin 2 0))]"
        and depth = 1 and t = ?s, OF _ R1 A1]
  show ?thesis
    by (simp add: Let_def repeat_def replicate_num)
qed

text \<open>
  \<^bold>\<open>C9.\<close> With an indent, an empty object or array does not collapse: the newline and
  indent that would precede the first element and the newline before the closing
  bracket are written all the same.
\<close>

theorem empty_container_with_indent:
  assumes "indent \<noteq> []"
  shows "stringifyObject h r indent stack a [] depth =
           Inr (Some (''{'' @ [NEWLINE] @ [NEWLINE] @ repeat indent depth @ ''}'')) \<and>
         stringifyArray h r indent stack a [] depth =
           Inr (Some (''['' @ [NEWLINE] @ repeat indent (depth + 1) @ [NEWLINE] @ repeat indent depth @ '']''))"
  using assms by (simp add: stringifyObject.simps stringifyArray.simps)

text \<open>\<^verbatim>\<open>stringify({}, null, 2)\<close> and \<^verbatim>\<open>stringify([], null, 2)\<close>.\<close>

theorem empty_container_with_indent_witness:
  "myStringify [CObj []] (VRef 0) None (SpaceNumber 2) =
     Inr (Some [CHR ''{'', NEWLINE, NEWLINE, CHR ''}'']) \<and>
   myStringify [CArr []] (VRef 0) None (SpaceNumber 2) =
     Inr (Some [CHR ''['', NEWLINE, CHR '' '', CHR '' '', NEWLINE, CHR '']''])"
proof -
  have ne: "''  '' \<noteq> []" by simp
  have 1: "myStringify [CObj []] (VRef 0) None (SpaceNumber 2) = stringifyObject [CObj []] None ''  '' [] 0 [] 0"
    and 2: "myStringify [CArr []] (VRef 0) None (SpaceNumber 2) = stringifyArray [CArr []] None ''  '' [] 0 [] 0"
    by (simp_all add: myStringify_def stringifyValue.simps applyReplacer_def lookup_def indent_of_def
        repeat_def replicate_num)
  show ?thesis
    using empty_container_with_indent[OF ne, of "[CObj []]" None "[]" 0 0]
      empty_container_with_indent[OF ne, of "[CArr []]" None "[]" 0 0]
    by (simp add: 1 2 repeat_def)
qed

subsection \<open>The key passed to the replacer\<close>

lemma lookup_replaced: "lookup (replaced f h) a = map_option (replaced_container f) (lookup h a)"
  by (simp add: lookup_def replaced_def)

text \<open>
  A visit with a replacer is the visit, with no replacer, of the replaced value in the
  replaced store: at every array the replacer has been called on every element with
  the empty key, and at every object on every value with the key of its entry.
\<close>

lemma replacer_applied:
  shows "r = Some f \<Longrightarrow>
           stringifyValue h r indent stack key v depth =
           stringifyValue (replaced f h) None indent stack key (f key v) depth"
    and "r = Some f \<Longrightarrow>
           stringifyArray h r indent stack a array depth =
           stringifyArray (replaced f h) None indent stack a (map (map_option (f [])) array) depth"
    and "r = Some f \<Longrightarrow>
           stringifyObject h r indent stack a obj depth =
           stringifyObject (replaced f h) None indent stack a (map (\<lambda>(key, v). (key, f key v)) obj) depth"
proof (induction h r indent stack key v depth and h r indent stack a array depth and h r indent stack a obj depth
       rule: stringifyValue_stringifyArray_stringifyObject.induct)
  case (1 h r indent stack key v0 depth)
  have ar: "applyReplacer r key v0 = f key v0" "\<And>x. applyReplacer None key x = x"
    using 1(3) by (simp_all add: applyReplacer_def)
  show ?case
  proof (cases "f key v0")
    case (VRef b)
    then have VRef': "applyReplacer r key v0 = VRef b" using ar by simp
    show ?thesis
    proof (cases "lookup h b")
      case None
      then show ?thesis
        by (simp add: stringifyValue.simps[of h] stringifyValue.simps[of "replaced f h"] ar VRef lookup_replaced)
    next
      case (Some c)
      show ?thesis
      proof (cases "b \<in> set stack")
        case True
        then show ?thesis
          by (simp add: stringifyValue.simps[of h] stringifyValue.simps[of "replaced f h"] ar VRef Some
              lookup_replaced)
      next
        case False
        show ?thesis
        proof (cases c)
          case (CArr array)
          from 1(1)[OF VRef' Some False CArr 1(3)] show ?thesis
            by (simp add: stringifyValue.simps[of h] stringifyValue.simps[of "replaced f h"] ar VRef Some
                False CArr lookup_replaced replaced_container_def)
        next
          case (CObj obj)
          from 1(2)[OF VRef' Some False CObj 1(3)] show ?thesis
            by (simp add: stringifyValue.simps[of h] stringifyValue.simps[of "replaced f h"] ar VRef Some
                False CObj lookup_replaced replaced_container_def)
        qed
      qed
    qed
  qed (simp_all add: stringifyValue.simps[of h] stringifyValue.simps[of "replaced f h"] ar)
next
  case (2 h r indent stack a array depth)
  let ?f = "\<lambda>hh rr slot. case slot of
                    None \<Rightarrow> Inr ''''
                  | Some item \<Rightarrow>
                      (case stringifyValue hh rr indent (stack @ [a]) '''' item (depth + 1) of
                         Inl e \<Rightarrow> Inl (e :: error)
                       | Inr t \<Rightarrow> Inr (case t of None \<Rightarrow> ''null'' | Some s \<Rightarrow> s))"
  have "mapE (?f (replaced f h) None) (map (map_option (f [])) array) =
        mapE (\<lambda>slot. ?f (replaced f h) None (map_option (f []) slot)) array"
    by (rule mapE_map)
  also have "\<dots> = mapE (?f h r) array"
  proof (rule mapE_cong[OF refl])
    fix slot assume s: "slot \<in> set array"
    show "?f (replaced f h) None (map_option (f []) slot) = ?f h r slot"
    proof (cases slot)
      case None
      then show ?thesis by simp
    next
      case (Some item)
      from 2(1)[OF s Some 2(2)] show ?thesis
        by (simp add: Some)
    qed
  qed
  finally show ?case
    by (simp only: stringifyArray.simps)
next
  case (3 h r indent stack a obj depth)
  let ?g = "\<lambda>(key, v). (key, f key v)"
  let ?F = "\<lambda>hh rr. (\<lambda>(key, v). case stringifyValue hh rr indent (stack @ [a]) key v depth of
                       Inl e \<Rightarrow> Inl (e :: error) | Inr t \<Rightarrow> Inr (t \<noteq> None))"
  let ?G = "\<lambda>hh rr. (\<lambda>(key, v).
                       case stringifyValue hh rr indent (stack @ [a]) key v (depth + 1) of
                         Inl e \<Rightarrow> Inl (e :: error)
                       | Inr t \<Rightarrow>
                           Inr ((if indent \<noteq> [] then repeat indent (depth + 1) else '''') @
                                [DQUOTE] @ key @ [DQUOTE] @ '':'' @
                                (if indent \<noteq> [] then '' '' else '''') @
                                (case t of None \<Rightarrow> ''undefined'' | Some s \<Rightarrow> s)))"
  have "filterE (\<lambda>x. ?F (replaced f h) None (?g x)) obj = filterE (?F h r) obj"
  proof (rule filterE_cong[OF refl])
    fix x assume x: "x \<in> set obj"
    obtain k v where kv: "x = (k, v)" by (cases x)
    from 3(1)[OF x kv[symmetric] 3(3)]
    show "?F (replaced f h) None (?g x) = ?F h r x" by (simp add: kv)
  qed
  then have f: "filterE (?F (replaced f h) None) (map ?g obj) =
      (case filterE (?F h r) obj of Inl e \<Rightarrow> Inl e | Inr ys \<Rightarrow> Inr (map ?g ys))"
    by (simp only: filterE_map)
  show ?case
  proof (cases "filterE (?F h r) obj")
    case (Inl e)
    with f have "filterE (?F (replaced f h) None) (map ?g obj) = Inl e" by simp
    with Inl show ?thesis by (simp only: stringifyObject.simps sum.case)
  next
    case (Inr kept)
    with f have f': "filterE (?F (replaced f h) None) (map ?g obj) = Inr (map ?g kept)" by simp
    have "mapE (?G (replaced f h) None) (map ?g kept) = mapE (\<lambda>x. ?G (replaced f h) None (?g x)) kept"
      by (rule mapE_map)
    also have "\<dots> = mapE (?G h r) kept"
    proof (rule mapE_cong[OF refl])
      fix x assume x: "x \<in> set kept"
      obtain k v where kv: "x = (k, v)" by (cases x)
      from 3(2)[OF Inr x kv[symmetric] 3(3)]
      show "?G (replaced f h) None (?g x) = ?G h r x" by (simp add: kv)
    qed
    finally have m: "mapE (?G (replaced f h) None) (map ?g kept) = mapE (?G h r) kept" .
    show ?thesis
      by (simp only: stringifyObject.simps Inr f' sum.case m)
  qed
qed

text \<open>
  \<^bold>\<open>C10.\<close> With a replacer \<open>f\<close>, the output is the output, with no replacer, for the root
  \<open>f "" v\<close> in the store where every array holds \<open>f "" x\<close> in place of its element \<open>x\<close>
  and every object \<open>f k x\<close> in place of the value \<open>x\<close> of its entry \<open>k\<close>: the replacer
  is called on every element of every array met, at any depth, with the empty key, the
  key of the root, and what it returns there is what is written. No index is passed.
\<close>

theorem array_elements_replaced_with_empty_key:
  "myStringify h v (Some f) sp = myStringify (replaced f h) (f [] v) None sp \<and>
   (lookup h a = Some (CArr array) \<longrightarrow>
      lookup (replaced f h) a = Some (CArr (map (map_option (f [])) array)))"
  using replacer_applied(1)[of "Some f" f h "indent_of sp" "[]" "[]" v 0]
  by (simp add: myStringify_def lookup_replaced replaced_container_def)

text \<open>
  A replacer that puts every number it is given with the empty key between brackets
  as a string, and leaves the rest, on \<^verbatim>\<open>[1, [2]]\<close>: both numbers are replaced. A
  replacer that acts at the key \<^verbatim>\<open>"0"\<close> only changes nothing.
\<close>

theorem array_elements_replaced_with_empty_key_witness:
  "lookup [CArr [Some (VNumber (Fin 1 0)), Some (VRef 1)], CArr [Some (VNumber (Fin 2 0))]] 1 =
     Some (CArr [Some (VNumber (Fin 2 0))]) \<and>
   myStringify [CArr [Some (VNumber (Fin 1 0)), Some (VRef 1)], CArr [Some (VNumber (Fin 2 0))]] (VRef 0)
     (Some (\<lambda>k v. if k = [] then (case v of VNumber n \<Rightarrow> VString (''<'' @ String_number n @ ''>'') | _ \<Rightarrow> v)
                   else v)) (SpaceNumber 0) =
     Inr (Some (''['' @ [DQUOTE] @ ''<1>'' @ [DQUOTE] @ '',['' @ [DQUOTE] @ ''<2>'' @ [DQUOTE] @ '']]'')) \<and>
   myStringify [CArr [Some (VNumber (Fin 1 0)), Some (VRef 1)], CArr [Some (VNumber (Fin 2 0))]] (VRef 0)
     (Some (\<lambda>k v. if k = ''0'' then VString ''first'' else v)) (SpaceNumber 0) =
     Inr (Some ''[1,[2]]'')"
proof -
  let ?h = "[CArr [Some (VNumber (Fin 1 0)), Some (VRef 1)], CArr [Some (VNumber (Fin 2 0))]]"
  let ?f = "\<lambda>k v. if k = [] then (case v of VNumber n \<Rightarrow> VString (''<'' @ String_number n @ ''>'') | _ \<Rightarrow> v)
                   else v"
  let ?g = "\<lambda>k (v :: jsval). if k = ''0'' then VString ''first'' else v"
  have l: "lookup ?h 1 = Some (CArr [Some (VNumber (Fin 2 0))])"
    by (simp add: lookup_def)
  have 1: "myStringify (replaced ?f ?h) (?f [] (VRef 0)) None (SpaceNumber 0) =
      Inr (Some (''['' @ [DQUOTE] @ ''<1>'' @ [DQUOTE] @ '',['' @ [DQUOTE] @ ''<2>'' @ [DQUOTE] @ '']]''))"
    by (simp add: replaced_def replaced_container_def stringify_eval)
  have 2: "myStringify (replaced ?g ?h) (?g [] (VRef 0)) None (SpaceNumber 0) = Inr (Some ''[1,[2]]'')"
    by (simp add: replaced_def replaced_container_def stringify_eval)
  from array_elements_replaced_with_empty_key[of ?h "VRef 0" ?f "SpaceNumber 0" 1 "[Some (VNumber (Fin 2 0))]"]
    array_elements_replaced_with_empty_key[of ?h "VRef 0" ?g "SpaceNumber 0" 1 "[Some (VNumber (Fin 2 0))]"]
    l 1 2
  show ?thesis by simp
qed

text \<open>
  Hence two replacers that agree at the empty key and at the keys of the objects give
  the same output, whatever they do at the keys \<^verbatim>\<open>"0"\<close>, \<^verbatim>\<open>"1"\<close> and so on: no replacer
  can tell the positions of an array from one another or from the root.
\<close>

lemma replacer_keys:
  fixes f g :: replacer
  assumes root: "\<And>v. f [] v = g [] v"
    and keys: "\<And>k v. k \<in> object_keys h \<Longrightarrow> f k v = g k v"
  shows "myStringify h v (Some f) sp = myStringify h v (Some g) sp"
proof -
  have "replaced_container f c = replaced_container g c" if "c \<in> set h" for c
  proof (cases c)
    case (CArr array)
    have "f [] = g []" using root by (simp add: fun_eq_iff)
    with CArr show ?thesis by (simp add: replaced_container_def)
  next
    case (CObj obj)
    with that have "\<And>k v. (k, v) \<in> set obj \<Longrightarrow> k \<in> object_keys h"
      by (auto simp: object_keys_def)
    with CObj show ?thesis
      by (auto simp: replaced_container_def keys)
  qed
  then have "replaced f h = replaced g h"
    by (simp add: replaced_def)
  with root show ?thesis
    using replacer_applied(1)[of "Some f" f h "indent_of sp" "[]" "[]" v 0]
      replacer_applied(1)[of "Some g" g h "indent_of sp" "[]" "[]" v 0]
    by (simp add: myStringify_def)
qed

section \<open>Properties of the parser\<close>

subsection \<open>Evaluation and the string loop\<close>

lemmas parse_eval =
  myParse_def parseValue.simps parseObject.simps parseObjectLoop.simps parseArray.simps
  parseArrayLoop.simps parseString_def parseStringLoop.simps parseLiteral_def parseNumber_def
  numberRegex_exec_def sign_end_def fraction_end_def exponent_sign_end_def exponent_end_def
  digits_end.simps skipWhitespace.simps json_at_def test_s_def is_space_def
  isDigit_def append_char_def escape_text_def parseString_escapes_def Number_text_def digits_value_def
  digit_class_def normalise.simps obj_set_def array_index_def applyReviver_def
  recursiveRevive.simps isObject_def newValue_of_def Let_def

lemma parseStringLoop_no_quote:
  "\<forall>k \<ge> index. json_at json k \<noteq> Some DQUOTE \<Longrightarrow> parseStringLoop n json index result = None"
  by (induction n arbitrary: index result) (auto simp: Let_def)

lemma skipWhitespace_stop: "\<not> test_s (json_at json index) \<Longrightarrow> skipWhitespace json index = index"
  by (simp add: skipWhitespace.simps)

subsection \<open>The bound\<close>

text \<open>
  A call that has ended within a bound gives the same result within every larger one:
  the bound decides only whether the model has an answer, never which.
\<close>

lemma parseStringLoop_mono:
  "parseStringLoop n json i acc = Some r \<Longrightarrow> parseStringLoop (n + k) json i acc = Some r"
  by (induction n arbitrary: i acc) (auto split: if_splits)

lemma parseString_mono: "parseString n json i = Some r \<Longrightarrow> parseString (n + k) json i = Some r"
  unfolding parseString_def by (rule parseStringLoop_mono)

lemma reviveEntries_mono:
  assumes "\<And>v x. rec v = Some x \<Longrightarrow> rec' v = Some x"
  shows "reviveEntries rec rv es = Some r \<Longrightarrow> reviveEntries rec' rv es = Some r"
proof (induction es arbitrary: r)
  case Nil
  then show ?case by simp
next
  case (Cons e es)
  obtain key v where e: "e = (key, v)" by (cases e)
  from Cons.prems Cons.IH assms show ?case
    unfolding e by (auto simp: Let_def split: if_splits option.splits)
qed

lemma reviveElements_mono:
  assumes "\<And>v x. rec v = Some x \<Longrightarrow> rec' v = Some x"
  shows "reviveElements rec rv i xs = Some r \<Longrightarrow> reviveElements rec' rv i xs = Some r"
proof (induction xs arbitrary: r i)
  case Nil
  then show ?case by simp
next
  case (Cons v xs)
  from Cons.prems Cons.IH assms show ?case
    by (auto simp: Let_def split: if_splits option.splits)
qed

lemma recursiveRevive_mono:
  "recursiveRevive n rv holder = Some r \<Longrightarrow> recursiveRevive (n + k) rv holder = Some r"
proof (induction n arbitrary: holder r)
  case 0
  then show ?case by simp
next
  case (Suc n)
  have m: "\<And>v x. recursiveRevive n rv v = Some x \<Longrightarrow> recursiveRevive (n + k) rv v = Some x"
    by (rule Suc.IH)
  from Suc.prems show ?case
    by (cases holder)
       (auto dest: reviveEntries_mono[OF m, rotated] reviveElements_mono[OF m, rotated])
qed

lemma applyReviver_mono:
  "applyReviver n reviver obj = Some r \<Longrightarrow> applyReviver (n + k) reviver obj = Some r"
  by (auto simp: applyReviver_def split: option.splits if_splits
      dest: recursiveRevive_mono[where k = k])

lemma parseString_more: "parseString n json i \<noteq> None \<Longrightarrow> parseString (n + k) json i = parseString n json i"
  using parseString_mono[of n json i _ k] by auto

lemma applyReviver_more:
  "applyReviver n reviver obj \<noteq> None \<Longrightarrow> applyReviver (n + k) reviver obj = applyReviver n reviver obj"
  using applyReviver_mono[of n reviver obj _ k] by auto

lemma parse_more:
  shows "parseValue n json reviver i \<noteq> None \<Longrightarrow>
           parseValue (n + k) json reviver i = parseValue n json reviver i"
    and "parseObject n json reviver i \<noteq> None \<Longrightarrow>
           parseObject (n + k) json reviver i = parseObject n json reviver i"
    and "parseObjectLoop n json reviver i res \<noteq> None \<Longrightarrow>
           parseObjectLoop (n + k) json reviver i res = parseObjectLoop n json reviver i res"
    and "parseArray n json reviver i \<noteq> None \<Longrightarrow>
           parseArray (n + k) json reviver i = parseArray n json reviver i"
    and "parseArrayLoop n json reviver i ares \<noteq> None \<Longrightarrow>
           parseArrayLoop (n + k) json reviver i ares = parseArrayLoop n json reviver i ares"
proof (induction n json reviver i and n json reviver i and n json reviver i res
         and n json reviver i and n json reviver i ares
       rule: parseValue_parseObject_parseObjectLoop_parseArray_parseArrayLoop.induct)
  case (1 json reviver index0)
  then show ?case by (simp add: parseValue.simps)
next
  case (2 n json reviver index0)
  note o = 2(1)[OF refl refl] and a = 2(2)[OF refl refl]
  from 2(3) show ?case
    by (auto simp: parseValue.simps Let_def parseString_more o a split: option.splits)
next
  case (3 n json reviver index0)
  show ?case
  proof (cases "json_at json (skipWhitespace json (index0 + 1)) = Some CHR ''}''")
    case True
    with 3(2) have "applyReviver n reviver (JObject []) \<noteq> None"
      by (auto simp: parseObject.simps Let_def split: option.splits)
    from applyReviver_more[OF this, of k] True show ?thesis
      by (simp add: parseObject.simps Let_def)
  next
    case False
    with 3(2) have "parseObjectLoop n json reviver (skipWhitespace json (index0 + 1)) [] \<noteq> None"
      by (simp add: parseObject.simps Let_def)
    from 3(1)[OF refl False this] False show ?thesis
      by (simp add: parseObject.simps Let_def)
  qed
next
  case (4 json reviver index0 result)
  then show ?case by (simp add: parseObjectLoop.simps)
next
  case (5 n json reviver index0 result)
  let ?s = "skipWhitespace json index0"
  from 5(3) obtain key i2 where ps: "parseString n json ?s = Some (key, i2)"
    by (auto simp: parseObjectLoop.simps Let_def split: option.splits)
  then have ps': "parseString (n + k) json ?s = Some (key, i2)"
    by (rule parseString_mono)
  show ?case
  proof (cases "json_at json (skipWhitespace json i2) = Some CHR '':''")
    case False
    with ps ps' show ?thesis by (simp add: parseObjectLoop.simps Let_def)
  next
    case True
    then have nc: "\<not> json_at json (skipWhitespace json i2) \<noteq> Some CHR '':''" by simp
    let ?i4 = "skipWhitespace json (skipWhitespace json i2 + 1)"
    from 5(3) ps True have nn: "parseValue n json reviver ?i4 \<noteq> None"
      by (auto simp: parseObjectLoop.simps Let_def split: option.splits)
    from 5(1)[OF refl ps refl refl nc refl nn]
    have pv: "parseValue (n + k) json reviver ?i4 = parseValue n json reviver ?i4" .
    show ?thesis
    proof (cases "parseValue n json reviver ?i4")
      case None
      with nn show ?thesis by simp
    next
      case (Some res)
      show ?thesis
      proof (cases res)
        case (Inl e)
        with Some pv ps ps' True show ?thesis by (simp add: parseObjectLoop.simps Let_def)
      next
        case (Inr b)
        obtain v i5 where b: "b = (v, i5)" by (cases b)
        let ?i6 = "skipWhitespace json i5"
        show ?thesis
        proof (cases "json_at json ?i6 = Some CHR ''}''")
          case c: True
          from 5(3) ps True Some Inr b c
          have "applyReviver n reviver (JObject (obj_set result key v)) \<noteq> None"
            by (auto simp: parseObjectLoop.simps Let_def split: option.splits)
          from applyReviver_more[OF this, of k] Some Inr b c pv ps ps' True show ?thesis
            by (simp add: parseObjectLoop.simps Let_def)
        next
          case nc6: False
          show ?thesis
          proof (cases "json_at json ?i6 = Some CHR '',''")
            case False
            with nc6 Some Inr b pv ps ps' True show ?thesis
              by (simp add: parseObjectLoop.simps Let_def)
          next
            case c: True
            then have ncm: "\<not> json_at json ?i6 \<noteq> Some CHR '',''" by simp
            from 5(3) ps True Some Inr b nc6 c
            have "parseObjectLoop n json reviver (?i6 + 1) (obj_set result key v) \<noteq> None"
              by (auto simp: parseObjectLoop.simps Let_def split: option.splits)
            from 5(2)[OF refl ps refl refl nc refl Some Inr b[symmetric] refl refl nc6 ncm this]
              nc6 c Some Inr b pv ps ps' True show ?thesis
              by (simp add: parseObjectLoop.simps Let_def)
          qed
        qed
      qed
    qed
  qed
next
  case (6 n json reviver index0)
  show ?case
  proof (cases "json_at json (skipWhitespace json (index0 + 1)) = Some CHR '']''")
    case True
    with 6(2) have "applyReviver n reviver (JArray []) \<noteq> None"
      by (auto simp: parseArray.simps Let_def split: option.splits)
    from applyReviver_more[OF this, of k] True show ?thesis
      by (simp add: parseArray.simps Let_def)
  next
    case False
    with 6(2) have "parseArrayLoop n json reviver (skipWhitespace json (index0 + 1)) [] \<noteq> None"
      by (simp add: parseArray.simps Let_def)
    from 6(1)[OF refl False this] False show ?thesis
      by (simp add: parseArray.simps Let_def)
  qed
next
  case (7 json reviver index0 result)
  then show ?case by (simp add: parseArrayLoop.simps)
next
  case (8 n json reviver index0 result)
  let ?s = "skipWhitespace json index0"
  from 8(3) have nn: "parseValue n json reviver ?s \<noteq> None"
    by (auto simp: parseArrayLoop.simps Let_def split: option.splits)
  from 8(1)[OF refl nn]
  have pv: "parseValue (n + k) json reviver ?s = parseValue n json reviver ?s" .
  show ?case
  proof (cases "parseValue n json reviver ?s")
    case None
    with nn show ?thesis by simp
  next
    case (Some res)
    show ?thesis
    proof (cases res)
      case (Inl e)
      with Some pv show ?thesis by (simp add: parseArrayLoop.simps Let_def)
    next
      case (Inr b)
      obtain v i2 where b: "b = (v, i2)" by (cases b)
      let ?i3 = "skipWhitespace json i2"
      show ?thesis
      proof (cases "json_at json ?i3 = Some CHR '']''")
        case c: True
        from 8(3) Some Inr b c
        have "applyReviver n reviver (JArray (result @ [v])) \<noteq> None"
          by (auto simp: parseArrayLoop.simps Let_def split: option.splits)
        from applyReviver_more[OF this, of k] Some Inr b c pv show ?thesis
          by (simp add: parseArrayLoop.simps Let_def)
      next
        case nc3: False
        show ?thesis
        proof (cases "json_at json ?i3 = Some CHR '',''")
          case False
          with nc3 Some Inr b pv show ?thesis
            by (simp add: parseArrayLoop.simps Let_def)
        next
          case c: True
          then have ncm: "\<not> json_at json ?i3 \<noteq> Some CHR '',''" by simp
          from 8(3) Some Inr b nc3 c
          have "parseArrayLoop n json reviver (?i3 + 1) (result @ [v]) \<noteq> None"
            by (auto simp: parseArrayLoop.simps Let_def split: option.splits)
          from 8(2)[OF refl Some Inr b[symmetric] refl refl nc3 ncm this]
            nc3 c Some Inr b pv show ?thesis
            by (simp add: parseArrayLoop.simps Let_def)
        qed
      qed
    qed
  qed
qed

lemma myParse_more:
  "myParse n json reviver \<noteq> None \<Longrightarrow> myParse (n + k) json reviver = myParse n json reviver"
  using parse_more(1)[of n json reviver 0 k]
  by (auto simp: myParse_def split: option.splits)

subsection \<open>Strings, revivers and the round trip\<close>

text \<open>
  \<^bold>\<open>C3.\<close> A text that opens a string and has no second quote: the loop of
  \<^verbatim>\<open>parseString\<close> runs past the end, where every read gives \<^verbatim>\<open>undefined\<close>, and does not
  end within any bound. The call neither returns a value nor throws \<^verbatim>\<open>SyntaxError\<close>.
\<close>

theorem unterminated_string_never_returns:
  assumes "DQUOTE \<notin> set s"
  shows "myParse n (DQUOTE # s) reviver = None"
proof (cases n)
  case 0
  then show ?thesis by (simp add: myParse_def parseValue.simps)
next
  case (Suc m)
  have 1: "skipWhitespace (DQUOTE # s) 0 = 0"
    by (rule skipWhitespace_stop) (simp add: test_s_def json_at_def is_space_def)
  have "\<forall>k \<ge> 1. json_at (DQUOTE # s) k \<noteq> Some DQUOTE"
    using assms by (auto simp: json_at_def nth_Cons in_set_conv_nth split: nat.splits)
  then have 2: "parseStringLoop m (DQUOTE # s) 1 [] = None"
    by (rule parseStringLoop_no_quote)
  show ?thesis
    using 2 by (simp add: myParse_def Suc parseValue.simps 1 Let_def json_at_def parseString_def)
qed

text \<open>The text \<^verbatim>\<open>"abc\<close>, with a bound of a thousand.\<close>

theorem unterminated_string_never_returns_witness:
  "DQUOTE \<notin> set ''abc'' \<and> myParse 1000 (DQUOTE # ''abc'') None = None"
  using unterminated_string_never_returns[of "''abc''" 1000 None] by simp

text \<open>
  \<^bold>\<open>C2.\<close> The reviver is applied when each array or object is complete, not after the
  whole tree, and an inner node is passed to it again by every enclosing container:
  for \<^verbatim>\<open>[["a"]]\<close> the string is revived twice. The walk of the specification passes it
  once. (Without a reviver the text parses to \<^verbatim>\<open>[["a"]]\<close>.)
\<close>

theorem reviver_applied_repeatedly:
  "myParse (Suc (Suc (Suc (Suc (Suc (Suc (Suc n))))))) (''[['' @ quoted ''a'' @ '']]'') (Some exclaim) =
     Some (Inr (JArray [JArray [JString ''a!!'']])) \<and>
   myParse (Suc (Suc (Suc (Suc (Suc (Suc (Suc n))))))) (''[['' @ quoted ''a'' @ '']]'') None =
     Some (Inr (JArray [JArray [JString ''a'']])) \<and>
   revive_once exclaim [] (JArray [JArray [JString ''a'']]) = JArray [JArray [JString ''a!'']]"
  by (simp add: parse_eval quoted_def exclaim_def nat_digits.simps digit_char_def)

text \<open>
  \<^bold>\<open>C1.\<close> The round trip fails for an object whose key holds a double quote: the text
  written for \<^verbatim>\<open>{'a"b': 1}\<close> is \<^verbatim>\<open>{"a"b":1}\<close>, and the parser, which reads the key
  \<^verbatim>\<open>a\<close> and then finds \<^verbatim>\<open>b\<close> where the colon should be, throws.
\<close>

theorem roundtrip_fails_on_key_with_quote:
  "myStringify [CObj [([CHR ''a'', DQUOTE, CHR ''b''], VNumber (Fin 1 0))]] (VRef 0) None (SpaceNumber 0) =
     Inr (Some (''{'' @ quoted ([CHR ''a'', DQUOTE, CHR ''b'']) @ '':1}'')) \<and>
   myParse (Suc (Suc (Suc (Suc n)))) (''{'' @ quoted ([CHR ''a'', DQUOTE, CHR ''b'']) @ '':1}'') None =
     Some (Inl SyntaxError)"
  by (simp add: stringify_eval parse_eval quoted_def)

subsection \<open>Whitespace\<close>




























lemma skipWhitespace_idem: "skipWhitespace v (skipWhitespace v i) = skipWhitespace v i"
proof (induction v i rule: skipWhitespace.induct)
  case (1 json i)
  show ?case
  proof (cases "test_s (json_at json i)")
    case True
    then have "skipWhitespace json i = skipWhitespace json (i + 1)"
      by (subst skipWhitespace.simps) simp
    with 1 True show ?thesis by simp
  next
    case False
    then have "skipWhitespace json i = i" by (rule skipWhitespace_stop)
    then show ?thesis by simp
  qed
qed




























lemma at_skip_idem: "json_at v (skipWhitespace v (skipWhitespace v i)) = Some c \<Longrightarrow>
  json_at v (skipWhitespace v i) = Some c"
  by (simp add: skipWhitespace_idem)







subsection \<open>Valid texts are accepted\<close>





































lemma space_ends: "list_all is_space w \<Longrightarrow> w \<noteq> [] \<Longrightarrow> number_ends (w @ rest)"
  by (cases w) (auto simp: number_ends_def is_space_def json_digit_def)












end
